theory Spec2Isabelle
  imports Main
begin

section \<open>Strings and character classes\<close>

text \<open>
  A Python \<^verbatim>\<open>str\<close> is a sequence of Unicode code points, so a string is a list of
  natural numbers here and its length counts code points, as \<^verbatim>\<open>len\<close> does.
\<close>

type_synonym ustr = "nat list"

text \<open>
  The class \<^verbatim>\<open>\s\<close> of \<^verbatim>\<open>re\<close> on \<^verbatim>\<open>str\<close> patterns and the characters removed by
  \<^verbatim>\<open>str.strip()\<close> are the same set, the code points for which \<^verbatim>\<open>str.isspace\<close>
  holds: U+0009..U+000D, U+001C..U+0020, U+0085, U+00A0, U+1680, U+2000..U+200A, U+2028,
  U+2029, U+202F, U+205F and U+3000.
\<close>

definition is_space :: "nat \<Rightarrow> bool" where
  "is_space c \<longleftrightarrow>
     (9 \<le> c \<and> c \<le> 13) \<or> (28 \<le> c \<and> c \<le> 32) \<or> c = 133 \<or> c = 160 \<or> c = 5760 \<or>
     (8192 \<le> c \<and> c \<le> 8202) \<or> c = 8232 \<or> c = 8233 \<or> c = 8239 \<or> c = 8287 \<or> c = 12288"

text \<open>The class \<^verbatim>\<open>[ \t\u00A0\u200B]\<close> of \<^verbatim>\<open>norm_space\<close>.\<close>

definition is_hws :: "nat \<Rightarrow> bool" where
  "is_hws c \<longleftrightarrow> c = 32 \<or> c = 9 \<or> c = 160 \<or> c = 8203"

text \<open>The line feed \<^verbatim>\<open>\n\<close>.\<close>

definition is_nl :: "nat \<Rightarrow> bool" where
  "is_nl c \<longleftrightarrow> c = 10"

section \<open>The regular expressions of the program\<close>

text \<open>
  Every pattern of the functions modelled here is a sequence of items, each a character
  class under a greedy quantifier (\<^verbatim>\<open>X\<close>, \<^verbatim>\<open>X*\<close>, \<^verbatim>\<open>X+\<close>, \<^verbatim>\<open>X{2,}\<close>), possibly a
  capturing group, or a lookbehind or lookahead on one character class, or one of the
  anchors \<^verbatim>\<open>^\<close> (\<open>AtStart\<close>: the start of the string) and \<^verbatim>\<open>$\<close> (\<open>AtEnd\<close>: the
  end of the string, or just before a line feed that ends it).
  \<open>Rep P lo hi cap\<close> is the class \<open>P\<close> repeated at least \<open>lo\<close> and at most \<open>hi\<close> times
  (\<open>None\<close>: no upper bound), as a capturing group when \<open>cap\<close> holds.
\<close>

datatype atom =
    Rep "nat \<Rightarrow> bool" nat "nat option" bool
  | LookBehind "nat \<Rightarrow> bool"
  | LookAhead "nat \<Rightarrow> bool"
  | AtStart
  | AtEnd

abbreviation One :: "(nat \<Rightarrow> bool) \<Rightarrow> atom" where
  "One P \<equiv> Rep P (Suc 0) (Some (Suc 0)) False"

abbreviation Star :: "(nat \<Rightarrow> bool) \<Rightarrow> atom" where
  "Star P \<equiv> Rep P 0 None False"

abbreviation Plus :: "(nat \<Rightarrow> bool) \<Rightarrow> atom" where
  "Plus P \<equiv> Rep P (Suc 0) None False"

abbreviation AtLeast2 :: "(nat \<Rightarrow> bool) \<Rightarrow> atom" where
  "AtLeast2 P \<equiv> Rep P 2 None False"

abbreviation Group1 :: "(nat \<Rightarrow> bool) \<Rightarrow> atom" where
  "Group1 P \<equiv> Rep P (Suc 0) (Some (Suc 0)) True"

abbreviation GroupPlus :: "(nat \<Rightarrow> bool) \<Rightarrow> atom" where
  "GroupPlus P \<equiv> Rep P (Suc 0) None True"

text \<open>
  A greedy quantifier takes the longest run first and gives characters back one at a
  time: \<open>try_down f lo hi\<close> is the first success of \<open>f\<close> at \<open>hi, hi - 1, ..., lo\<close>.
\<close>

primrec try_down :: "(nat \<Rightarrow> 'a option) \<Rightarrow> nat \<Rightarrow> nat \<Rightarrow> 'a option" where
  "try_down f lo 0 = (if lo = 0 then f 0 else None)"
| "try_down f lo (Suc h) =
     (if Suc h < lo then None
      else (case f (Suc h) of Some r \<Rightarrow> Some r | None \<Rightarrow> try_down f lo h))"

text \<open>The character before the position reached after consuming \<open>t\<close>.\<close>

definition prev_after :: "nat option \<Rightarrow> ustr \<Rightarrow> nat option" where
  "prev_after prev t = (if t = [] then prev else Some (last t))"

text \<open>
  \<open>rmatch pat prev s\<close> matches \<open>pat\<close> at the position whose preceding character is
  \<open>prev\<close> (\<open>None\<close> at the start of the string) and whose remaining text is \<open>s\<close>, by
  backtracking as \<^verbatim>\<open>re\<close> does. It returns the number of characters matched and the
  captured groups in order.
\<close>

fun rmatch :: "atom list \<Rightarrow> nat option \<Rightarrow> ustr \<Rightarrow> (nat \<times> ustr list) option" where
  "rmatch [] prev s = Some (0, [])"
| "rmatch (LookBehind P # as) prev s =
     (case prev of
        None \<Rightarrow> None
      | Some c \<Rightarrow> if P c then rmatch as prev s else None)"
| "rmatch (LookAhead P # as) prev s =
     (case s of
        [] \<Rightarrow> None
      | c # _ \<Rightarrow> if P c then rmatch as prev s else None)"
| "rmatch (AtStart # as) prev s = (if prev = None then rmatch as prev s else None)"
| "rmatch (AtEnd # as) prev s = (if s = [] \<or> s = [10] then rmatch as prev s else None)"
| "rmatch (Rep P lo hi cap # as) prev s =
     try_down
       (\<lambda>j. case rmatch as (prev_after prev (take j s)) (drop j s) of
              None \<Rightarrow> None
            | Some (n, gs) \<Rightarrow> Some (j + n, (if cap then [take j s] else []) @ gs))
       lo
       (case hi of
          None \<Rightarrow> length (takeWhile P s)
        | Some h \<Rightarrow> min h (length (takeWhile P s)))"

lemma try_down_None:
  "try_down f lo hi = None \<longleftrightarrow> (\<forall>j. lo \<le> j \<and> j \<le> hi \<longrightarrow> f j = None)"
proof (induction hi)
  case 0
  then show ?case by auto
next
  case (Suc h)
  show ?case
  proof (cases "Suc h < lo")
    case True
    then show ?thesis by auto
  next
    case False
    show ?thesis
    proof (cases "f (Suc h)")
      case None
      have "(\<forall>j. lo \<le> j \<and> j \<le> Suc h \<longrightarrow> f j = None)
            \<longleftrightarrow> (\<forall>j. lo \<le> j \<and> j \<le> h \<longrightarrow> f j = None)"
        using None by (auto simp: le_Suc_eq)
      with None False Suc show ?thesis by simp
    next
      case (Some a)
      have "\<not> (\<forall>j. lo \<le> j \<and> j \<le> Suc h \<longrightarrow> f j = None)"
        using Some False by (auto intro!: exI[of _ "Suc h"])
      with Some False show ?thesis by simp
    qed
  qed
qed

lemma try_down_Some:
  "try_down f lo hi = Some r \<longleftrightarrow>
     (\<exists>j. lo \<le> j \<and> j \<le> hi \<and> f j = Some r \<and> (\<forall>i. j < i \<and> i \<le> hi \<longrightarrow> f i = None))"
proof (induction hi)
  case 0
  then show ?case by auto
next
  case (Suc h)
  show ?case
  proof (cases "Suc h < lo")
    case True
    then show ?thesis by auto
  next
    case False
    note nlt = this
    show ?thesis
    proof (cases "f (Suc h)")
      case None
      have "(\<exists>j. lo \<le> j \<and> j \<le> Suc h \<and> f j = Some r \<and> (\<forall>i. j < i \<and> i \<le> Suc h \<longrightarrow> f i = None))
            \<longleftrightarrow> (\<exists>j. lo \<le> j \<and> j \<le> h \<and> f j = Some r \<and> (\<forall>i. j < i \<and> i \<le> h \<longrightarrow> f i = None))"
        (is "?L \<longleftrightarrow> ?R")
      proof
        assume ?L
        then obtain j where j: "lo \<le> j" "j \<le> Suc h" "f j = Some r"
          "\<forall>i. j < i \<and> i \<le> Suc h \<longrightarrow> f i = None" by blast
        from j(3) None have "j \<noteq> Suc h" by auto
        with j show ?R by (intro exI[of _ j]) auto
      next
        assume ?R
        then obtain j where j: "lo \<le> j" "j \<le> h" "f j = Some r"
          "\<forall>i. j < i \<and> i \<le> h \<longrightarrow> f i = None" by blast
        with None show ?L by (intro exI[of _ j]) (auto simp: le_Suc_eq)
      qed
      with None nlt Suc show ?thesis by simp
    next
      case (Some a)
      have "(\<exists>j. lo \<le> j \<and> j \<le> Suc h \<and> f j = Some r \<and> (\<forall>i. j < i \<and> i \<le> Suc h \<longrightarrow> f i = None))
            \<longleftrightarrow> a = r" (is "?L \<longleftrightarrow> _")
      proof
        assume ?L
        then obtain j where j: "lo \<le> j" "j \<le> Suc h" "f j = Some r"
          "\<forall>i. j < i \<and> i \<le> Suc h \<longrightarrow> f i = None" by blast
        have "j = Suc h"
        proof (rule ccontr)
          assume "j \<noteq> Suc h"
          with j(2) have "j < Suc h" by simp
          with j(4) have "f (Suc h) = None" by simp
          with Some show False by simp
        qed
        with j(3) Some show "a = r" by simp
      next
        assume "a = r"
        with Some nlt show ?L by (intro exI[of _ "Suc h"]) auto
      qed
      with Some nlt show ?thesis by simp
    qed
  qed
qed

lemma rmatch_le: "rmatch pat prev s = Some (n, gs) \<Longrightarrow> n \<le> length s"
proof (induction pat arbitrary: prev s n gs)
  case Nil
  then show ?case by simp
next
  case (Cons a as)
  show ?case
  proof (cases a)
    case (Rep P lo hi cap)
    from Cons.prems Rep obtain j m hs where
      j: "rmatch as (prev_after prev (take j s)) (drop j s) = Some (m, hs)" "n = j + m"
      and jle: "j \<le> (case hi of None \<Rightarrow> length (takeWhile P s)
                        | Some h \<Rightarrow> min h (length (takeWhile P s)))"
      by (auto simp: try_down_Some split: option.splits)
    from jle have "j \<le> length (takeWhile P s)" by (auto split: option.splits)
    then have "j \<le> length s" using length_takeWhile_le[of P s] by linarith
    moreover from Cons.IH[OF j(1)] have "m \<le> length s - j" by simp
    ultimately show ?thesis using j(2) by simp
  next
    case (LookBehind P)
    with Cons.prems have "rmatch as prev s = Some (n, gs)"
      by (auto split: option.splits if_splits)
    then show ?thesis by (rule Cons.IH)
  next
    case (LookAhead P)
    with Cons.prems have "rmatch as prev s = Some (n, gs)"
      by (auto split: list.splits if_splits)
    then show ?thesis by (rule Cons.IH)
  next
    case AtStart
    with Cons.prems have "rmatch as prev s = Some (n, gs)"
      by (auto split: if_splits)
    then show ?thesis by (rule Cons.IH)
  next
    case AtEnd
    with Cons.prems have "rmatch as prev s = Some (n, gs)"
      by (auto split: if_splits)
    then show ?thesis by (rule Cons.IH)
  qed
qed

text \<open>
  \<^verbatim>\<open>re.sub(pat, repl, s)\<close>: scan from the left; at a match, emit the replacement
  and go on after the match; otherwise copy one character. The replacement is computed
  from the list of groups, group 0 (the whole match) first, as \<^verbatim>\<open>m.group(k)\<close> numbers
  them. An empty match emits the replacement and copies the next character.
\<close>

function re_sub_at :: "atom list \<Rightarrow> (ustr list \<Rightarrow> ustr) \<Rightarrow> nat option \<Rightarrow> ustr \<Rightarrow> ustr" where
  "re_sub_at pat repl prev s =
     (case rmatch pat prev s of
        None \<Rightarrow> (case s of [] \<Rightarrow> [] | c # cs \<Rightarrow> c # re_sub_at pat repl (Some c) cs)
      | Some (n, gs) \<Rightarrow>
          if n = 0 then
            (case s of
               [] \<Rightarrow> repl ([] # gs)
             | c # cs \<Rightarrow> repl ([] # gs) @ c # re_sub_at pat repl (Some c) cs)
          else repl (take n s # gs) @ re_sub_at pat repl (prev_after prev (take n s)) (drop n s))"
  by pat_completeness auto
termination
proof (relation "measure (\<lambda>(pat, repl, prev, s). length s)")
  show "wf (measure (\<lambda>(pat, repl, prev, s). length s))" by simp
next
  fix pat :: "atom list" and repl :: "ustr list \<Rightarrow> ustr" and prev :: "nat option"
    and s :: ustr and c cs
  assume "s = c # cs"
  then show "((pat, repl, Some c, cs), (pat, repl, prev, s))
      \<in> measure (\<lambda>(pat, repl, prev, s). length s)" by simp
next
  fix pat :: "atom list" and repl :: "ustr list \<Rightarrow> ustr" and prev :: "nat option"
    and s :: ustr and x2 n gs c cs
  assume "s = c # cs"
  then show "((pat, repl, Some c, cs), (pat, repl, prev, s))
      \<in> measure (\<lambda>(pat, repl, prev, s). length s)" by simp
next
  fix pat :: "atom list" and repl :: "ustr list \<Rightarrow> ustr" and prev :: "nat option"
    and s :: ustr and x2 :: "nat \<times> ustr list" and n gs
  assume "rmatch pat prev s = Some x2" "(n, gs) = x2" "n \<noteq> 0"
  then have "n \<le> length s" using rmatch_le[of pat prev s n gs] by simp
  with \<open>n \<noteq> 0\<close> show "((pat, repl, prev_after prev (take n s), drop n s), (pat, repl, prev, s))
      \<in> measure (\<lambda>(pat, repl, prev, s). length s)" by simp
qed

definition re_sub :: "atom list \<Rightarrow> (ustr list \<Rightarrow> ustr) \<Rightarrow> ustr \<Rightarrow> ustr" where
  "re_sub pat repl s = re_sub_at pat repl None s"

text \<open>\<^verbatim>\<open>s.strip()\<close> removes the whitespace at both ends.\<close>

definition strip :: "ustr \<Rightarrow> ustr" where
  "strip s = rev (dropWhile is_space (rev (dropWhile is_space s)))"

section \<open>The text clean-up functions\<close>

text \<open>
  \<^verbatim>\<open>norm_space\<close>: runs of \<^verbatim>\<open>[ \t\u00A0\u200B]\<close> become one space, \<^verbatim>\<open>\s+\n\<close> becomes a
  line feed, and the ends are stripped. The empty string is returned as it is.
\<close>

definition norm_space :: "ustr \<Rightarrow> ustr" where
  "norm_space s =
     (if s = [] then s
      else strip (re_sub [Plus is_space, One is_nl] (\<lambda>gs. [10])
                   (re_sub [Plus is_hws] (\<lambda>gs. [32]) s)))"

text \<open>The class \<^verbatim>\<open>\u4E00-\u9FFF\u3400-\u4DBF\<close> (\<^verbatim>\<open>CJK\<close>).\<close>

definition is_cjk :: "nat \<Rightarrow> bool" where
  "is_cjk c \<longleftrightarrow> (19968 \<le> c \<and> c \<le> 40959) \<or> (13312 \<le> c \<and> c \<le> 19903)"

text \<open>
  The class \<^verbatim>\<open>\w\<close> on \<^verbatim>\<open>str\<close> patterns is the underscore and the alphanumeric
  characters of the Unicode database. Below U+0080 these are the ASCII letters and digits;
  the table for the other code points is not part of the program and is the parameter
  \<open>U\<close>.
\<close>

definition ascii_alnum :: "nat \<Rightarrow> bool" where
  "ascii_alnum c \<longleftrightarrow> (48 \<le> c \<and> c \<le> 57) \<or> (65 \<le> c \<and> c \<le> 90) \<or> (97 \<le> c \<and> c \<le> 122)"

definition is_word :: "(nat \<Rightarrow> bool) \<Rightarrow> nat \<Rightarrow> bool" where
  "is_word U c \<longleftrightarrow> c = 95 \<or> ascii_alnum c \<or> (128 \<le> c \<and> U c)"

text \<open>\<^verbatim>\<open>s.strip(chars)\<close> removes the characters of a set at both ends.\<close>

definition strip_chars :: "(nat \<Rightarrow> bool) \<Rightarrow> ustr \<Rightarrow> ustr" where
  "strip_chars P s = rev (dropWhile P (rev (dropWhile P s)))"

text \<open>The characters \<^verbatim>\<open>safe_slug\<close> keeps: the complement of \<^verbatim>\<open>[^\w\-CJK]\<close>.\<close>

definition slug_char :: "(nat \<Rightarrow> bool) \<Rightarrow> nat \<Rightarrow> bool" where
  "slug_char U c \<longleftrightarrow> is_word U c \<or> c = 45 \<or> is_cjk c"

definition safe_slug :: "(nat \<Rightarrow> bool) \<Rightarrow> ustr \<Rightarrow> ustr" where
  "safe_slug U s =
     (if s = [] then [78, 65]
      else
        let s1 = strip s;
            s2 = re_sub [Plus (\<lambda>c. \<not> slug_char U c)] (\<lambda>gs. [95]) s1;
            s3 = re_sub [AtLeast2 (\<lambda>c. c = 95)] (\<lambda>gs. [95]) s2;
            s4 = strip_chars (\<lambda>c. c = 95) s3
        in if s4 = [] then [78, 65] else s4)"

text \<open>
  \<^verbatim>\<open>condense_zhuyin\<close>: \<^verbatim>\<open>re.sub(rf"(?<=[{BPMF}])\s+(?=[{BPMF}])", "", s)\<close>.
\<close>

text \<open>The class \<^verbatim>\<open>BPMF\<close>: bopomofo, extended bopomofo and the four tone marks.\<close>

definition is_bpmf :: "nat \<Rightarrow> bool" where
  "is_bpmf c \<longleftrightarrow>
     (12549 \<le> c \<and> c \<le> 12585) \<or> (12704 \<le> c \<and> c \<le> 12730) \<or>
     c = 729 \<or> c = 714 \<or> c = 711 \<or> c = 715"

definition condense_zhuyin :: "ustr \<Rightarrow> ustr" where
  "condense_zhuyin s =
     (if s = [] then s
      else re_sub [LookBehind is_bpmf, Plus is_space, LookAhead is_bpmf] (\<lambda>gs. []) s)"

text \<open>
  \<^verbatim>\<open>newline_to_cjk_comma\<close>. The lookbehind class is \<^verbatim>\<open>[{CJK}\]]\<close> and the lookahead
  class is \<^verbatim>\<open>[{CJK}...]\<close> with the opening marks U+201C, U+300C, U+300E, U+FF08 and
  \<^verbatim>\<open>(\<close>; the comma is U+FF0C.
\<close>

definition cjk_or_close :: "nat \<Rightarrow> bool" where
  "cjk_or_close c \<longleftrightarrow> is_cjk c \<or> c = 93"

definition cjk_or_open :: "nat \<Rightarrow> bool" where
  "cjk_or_open c \<longleftrightarrow> is_cjk c \<or> c = 8220 \<or> c = 12300 \<or> c = 12302 \<or> c = 65288 \<or> c = 40"

definition newline_to_cjk_comma :: "ustr \<Rightarrow> ustr" where
  "newline_to_cjk_comma text =
     (if text = [] then text
      else
        let t1 = re_sub [LookBehind cjk_or_close, Star is_space, Plus is_nl, Star is_space,
                         LookAhead cjk_or_open] (\<lambda>gs. [65292]) text;
            t2 = filter (\<lambda>c. c \<noteq> 10) t1;
            t3 = re_sub [AtLeast2 (\<lambda>c. c = 65292)] (\<lambda>gs. [65292]) t2
        in t3)"

section \<open>The remaining clean-up functions\<close>

text \<open>
  Group \<open>k\<close> of a match, as a replacement template \<^verbatim>\<open>\k\<close> reads it (group 0 is the
  whole match).
\<close>

definition grp :: "ustr list \<Rightarrow> nat \<Rightarrow> ustr" where
  "grp gs k = (if k < length gs then gs ! k else [])"

text \<open>
  The class \<^verbatim>\<open>\d\<close> on \<^verbatim>\<open>str\<close> patterns: the ASCII digits and the other decimal digits
  of the Unicode database, whose table is the parameter \<open>D\<close>.
\<close>

definition is_digit :: "(nat \<Rightarrow> bool) \<Rightarrow> nat \<Rightarrow> bool" where
  "is_digit D c \<longleftrightarrow> (48 \<le> c \<and> c \<le> 57) \<or> (128 \<le> c \<and> D c)"

text \<open>\<^verbatim>\<open>strip_newlines\<close>: \<^verbatim>\<open>s.replace("\n", "")\<close>.\<close>

definition strip_newlines :: "ustr \<Rightarrow> ustr" where
  "strip_newlines s = filter (\<lambda>c. c \<noteq> 10) s"

text \<open>\<^verbatim>\<open>rm_blanklines\<close>: \<^verbatim>\<open>re.sub(r"\n{2,}", "\n", s.strip())\<close>.\<close>

definition rm_blanklines :: "ustr \<Rightarrow> ustr" where
  "rm_blanklines s = (if s = [] then s else re_sub [AtLeast2 is_nl] (\<lambda>gs. [10]) (strip s))"

text \<open>
  \<^verbatim>\<open>strip_bpmf_adjacent_newlines\<close>: \<^verbatim>\<open>([BPMF])\s*\n+\s*\<close> and then
  \<^verbatim>\<open>\s*\n+\s*([BPMF])\<close>, each replaced by its group.
\<close>

definition strip_bpmf_adjacent_newlines :: "ustr \<Rightarrow> ustr" where
  "strip_bpmf_adjacent_newlines s =
     (if s = [] then s
      else
        let s1 = re_sub [Group1 is_bpmf, Star is_space, Plus is_nl, Star is_space]
                   (\<lambda>gs. grp gs 1) s;
            s2 = re_sub [Star is_space, Plus is_nl, Star is_space, Group1 is_bpmf]
                   (\<lambda>gs. grp gs 1) s1
        in s2)"

text \<open>
  \<^verbatim>\<open>replace_arrow_notes\<close>: \<^verbatim>\<open>\n\s*(\d+)\s*[>\u3009]\<close> becomes \<^verbatim>\<open>[\1]\<close>.
\<close>

definition replace_arrow_notes :: "(nat \<Rightarrow> bool) \<Rightarrow> ustr \<Rightarrow> ustr" where
  "replace_arrow_notes D text =
     (if text = [] then text
      else re_sub [One is_nl, Star is_space, GroupPlus (is_digit D), Star is_space,
                   One (\<lambda>c. c = 62 \<or> c = 12297)]
             (\<lambda>gs. [91] @ grp gs 1 @ [93]) text)"

text \<open>
  \<^verbatim>\<open>fix_inline_markers_and_quotes\<close>. The markers are U+FF03 and U+25B3, the opening
  marks U+300C, U+300E, U+FF08, \<^verbatim>\<open>(\<close>, U+300A and the closing marks U+300D, U+300F,
  U+FF09, \<^verbatim>\<open>)\<close>, U+300B.
\<close>

definition is_marker :: "nat \<Rightarrow> bool" where
  "is_marker c \<longleftrightarrow> c = 65283 \<or> c = 9651"

definition is_openq :: "nat \<Rightarrow> bool" where
  "is_openq c \<longleftrightarrow> c = 12300 \<or> c = 12302 \<or> c = 65288 \<or> c = 40 \<or> c = 12298"

definition is_closeq :: "nat \<Rightarrow> bool" where
  "is_closeq c \<longleftrightarrow> c = 12301 \<or> c = 12303 \<or> c = 65289 \<or> c = 41 \<or> c = 12299"

definition fix_inline_markers_and_quotes :: "ustr \<Rightarrow> ustr" where
  "fix_inline_markers_and_quotes text =
     (if text = [] then text
      else
        let t1 = re_sub [One is_nl, Star is_space, Group1 is_marker, Star is_space]
                   (\<lambda>gs. grp gs 1) text;
            t2 = re_sub [Group1 is_marker, Star is_space, One is_nl, Star is_space,
                         Group1 is_openq]
                   (\<lambda>gs. grp gs 1 @ grp gs 2) t1;
            t3 = re_sub [Group1 is_openq, Star is_space, One is_nl, Star is_space]
                   (\<lambda>gs. grp gs 1) t2;
            t4 = re_sub [Star is_space, One is_nl, Star is_space, Group1 is_closeq]
                   (\<lambda>gs. grp gs 1) t3
        in t4)"

section \<open>Searching and splitting\<close>

text \<open>\<^verbatim>\<open>re.search(pat, s)\<close> as a truth value: is there a match at some position.\<close>

fun re_search_at :: "atom list \<Rightarrow> nat option \<Rightarrow> ustr \<Rightarrow> bool" where
  "re_search_at pat prev [] = (rmatch pat prev [] \<noteq> None)"
| "re_search_at pat prev (c # cs) =
     (rmatch pat prev (c # cs) \<noteq> None \<or> re_search_at pat (Some c) cs)"

definition re_search :: "atom list \<Rightarrow> ustr \<Rightarrow> bool" where
  "re_search pat s = re_search_at pat None s"

text \<open>
  \<^verbatim>\<open>re.split(pat, s)\<close> for a pattern without groups whose matches are not empty (the
  only use is \<^verbatim>\<open>\n+\<close>): the pieces between the matches. \<open>cur\<close> is the piece being read.
\<close>

function re_split_at :: "atom list \<Rightarrow> nat option \<Rightarrow> ustr \<Rightarrow> ustr \<Rightarrow> ustr list" where
  "re_split_at pat prev s cur =
     (case rmatch pat prev s of
        None \<Rightarrow> (case s of [] \<Rightarrow> [cur] | c # cs \<Rightarrow> re_split_at pat (Some c) cs (cur @ [c]))
      | Some (n, gs) \<Rightarrow>
          if n = 0 then
            (case s of [] \<Rightarrow> [cur] | c # cs \<Rightarrow> re_split_at pat (Some c) cs (cur @ [c]))
          else cur # re_split_at pat (prev_after prev (take n s)) (drop n s) [])"
  by pat_completeness auto
termination
proof (relation "measure (\<lambda>(pat, prev, s, cur). length s)")
  show "wf (measure (\<lambda>(pat, prev, s, cur). length s))" by simp
next
  fix pat :: "atom list" and prev :: "nat option" and s cur :: ustr and c cs
  assume "s = c # cs"
  then show "((pat, Some c, cs, cur @ [c]), (pat, prev, s, cur))
      \<in> measure (\<lambda>(pat, prev, s, cur). length s)" by simp
next
  fix pat :: "atom list" and prev :: "nat option" and s cur :: ustr and x2 n gs c cs
  assume "s = c # cs"
  then show "((pat, Some c, cs, cur @ [c]), (pat, prev, s, cur))
      \<in> measure (\<lambda>(pat, prev, s, cur). length s)" by simp
next
  fix pat :: "atom list" and prev :: "nat option" and s cur :: ustr
    and x2 :: "nat \<times> ustr list" and n gs
  assume "rmatch pat prev s = Some x2" "(n, gs) = x2" "n \<noteq> 0"
  then have "n \<le> length s" using rmatch_le[of pat prev s n gs] by simp
  with \<open>n \<noteq> 0\<close> show "((pat, prev_after prev (take n s), drop n s, []), (pat, prev, s, cur))
      \<in> measure (\<lambda>(pat, prev, s, cur). length s)" by simp
qed

declare re_split_at.simps [simp del]

definition re_split :: "atom list \<Rightarrow> ustr \<Rightarrow> ustr list" where
  "re_split pat s = re_split_at pat None s []"

text \<open>\<^verbatim>\<open>sep.join(xs)\<close> and \<^verbatim>\<open>sub in s\<close>.\<close>

fun join :: "ustr \<Rightarrow> ustr list \<Rightarrow> ustr" where
  "join sep [] = []"
| "join sep [x] = x"
| "join sep (x # y # ys) = x @ sep @ join sep (y # ys)"

fun contains :: "ustr \<Rightarrow> ustr \<Rightarrow> bool" where
  "contains sub [] = (sub = [])"
| "contains sub (c # cs) = (take (length sub) (c # cs) = sub \<or> contains sub cs)"

section \<open>What the program reads from a page\<close>

text \<open>
  The HTML parser is not part of the program. A page is modelled by what the program
  asks of it. \<open>idiom_table (only_article soup)\<close> is a table or nothing. Of a table the
  program reads its rows, of a row the text of its first \<^verbatim>\<open>th\<close> and its first \<^verbatim>\<open>td\<close>
  (each may be missing), and of a \<^verbatim>\<open>td\<close>: its text joined by line feeds, its headings
  (\<^verbatim>\<open>h4\<close> and \<^verbatim>\<open>strong\<close>) with, for each, the tags that follow it up to the next
  heading, and the texts of its list items.
\<close>

record sib =
  s_name :: string
  s_text :: ustr
  s_items :: "ustr list"

record heading =
  h_text :: ustr
  h_sibs :: "sib list"

record cell =
  c_text :: ustr
  c_headings :: "heading list"
  c_items :: "ustr list"

record row =
  r_th :: "ustr option"
  r_td :: "cell option"

text \<open>
  The fields computed by \<^verbatim>\<open>split_source_title_body\<close>, \<^verbatim>\<open>format_source_body\<close>,
  \<^verbatim>\<open>enumerate_source_notes\<close>, \<^verbatim>\<open>parse_synonyms_antonyms_td\<close> and
  \<^verbatim>\<open>format_references_for_fulltext\<close> are not modelled: these functions return a value
  on every input and their results enter only the returned record and its full text.
  Their results for a table are part of the table's model.
\<close>

record derived =
  x_source_title :: ustr
  x_source :: ustr
  x_source_notes :: ustr
  x_synonyms :: "ustr list"
  x_synonym_links :: "ustr list"
  x_antonyms :: "ustr list"
  x_antonym_links :: "ustr list"
  x_comparison :: ustr
  x_references_fmt :: ustr

record table =
  t_rows :: "row list"
  t_derived :: derived

text \<open>
  \<^verbatim>\<open>td_by_th\<close>: the \<^verbatim>\<open>td\<close> of the first row that has a \<^verbatim>\<open>th\<close> and a \<^verbatim>\<open>td\<close> and
  whose header text the regular expression finds.
\<close>

fun td_by_th :: "row list \<Rightarrow> atom list \<Rightarrow> cell option" where
  "td_by_th [] pat = None"
| "td_by_th (r # rs) pat =
     (case r_th r of
        None \<Rightarrow> td_by_th rs pat
      | Some th \<Rightarrow>
          (case r_td r of
             None \<Rightarrow> td_by_th rs pat
           | Some td \<Rightarrow> if re_search pat th then Some td else td_by_th rs pat))"

definition text_in_td :: "row list \<Rightarrow> atom list \<Rightarrow> ustr" where
  "text_in_td rows pat =
     (case td_by_th rows pat of None \<Rightarrow> [] | Some td \<Rightarrow> norm_space (c_text td))"

abbreviation Ch :: "nat \<Rightarrow> atom" where
  "Ch x \<equiv> One (\<lambda>c. c = x)"

text \<open>The header patterns, in the order of \<^verbatim>\<open>parse_idiom\<close>.\<close>

definition th_title :: "atom list" where
  "th_title = [AtStart, One (\<lambda>c. c = 25104 \<or> c = 35422), Star is_space, Ch 35486, AtEnd]"

definition th_bopomofo :: "atom list" where
  "th_bopomofo = [AtStart, Ch 27880, Star is_space, Ch 38899, AtEnd]"

definition th_pinyin :: "atom list" where
  "th_pinyin = [AtStart, Ch 28450, Ch 35486, Ch 25340, Ch 38899, AtEnd]"

definition th_definition :: "atom list" where
  "th_definition = [AtStart, Ch 37323, Star is_space, Ch 32681, AtEnd]"

definition th_story :: "atom list" where
  "th_story = [AtStart, Ch 20856, Ch 25925, Ch 35498, Ch 26126, AtEnd]"

definition th_citations :: "atom list" where
  "th_citations = [AtStart, Ch 26360, Star is_space, Ch 35657, AtEnd]"

definition th_usage :: "atom list" where
  "th_usage = [AtStart, Ch 29992, Ch 27861, Ch 35498, Ch 26126, AtEnd]"

definition th_references :: "atom list" where
  "th_references = [Ch 21443, Ch 32771, Ch 35422, Ch 35486]"

section \<open>The usage cell\<close>

record usage =
  usage_meaning :: ustr
  usage_category :: ustr
  usage_examples :: "ustr list"

text \<open>
  The inner loop of \<^verbatim>\<open>parse_usage_td\<close> over the tags after a heading: the items of an
  \<^verbatim>\<open>ol\<close> go to the examples, the text of any other tag to the chunks.
\<close>

fun usage_sibs :: "sib list \<Rightarrow> ustr list \<times> ustr list \<Rightarrow> ustr list \<times> ustr list" where
  "usage_sibs [] acc = acc"
| "usage_sibs (n # ns) (chunks, examples) =
     (if s_name n = ''ol''
      then usage_sibs ns
             (chunks, examples @ map (\<lambda>li. strip_newlines (norm_space li)) (s_items n))
      else usage_sibs ns (chunks @ [norm_space (s_text n)], examples))"

text \<open>The outer loop, over the headings: U+8A9E U+7FA9 U+8AAA U+660E, U+4F7F U+7528 U+985E U+5225, U+4F8B U+53E5.\<close>

fun usage_headings :: "heading list \<Rightarrow> usage \<Rightarrow> usage" where
  "usage_headings [] u = u"
| "usage_headings (h # hs) u =
     (let (chunks, examples) = usage_sibs (h_sibs h) ([], usage_examples u);
          txt = norm_space (join [10] (filter (\<lambda>c. c \<noteq> []) chunks));
          u1 = u\<lparr>usage_examples := examples\<rparr>;
          u2 =
            (if contains [35486, 32681, 35498, 26126] (h_text h) then u1\<lparr>usage_meaning := txt\<rparr>
             else if contains [20351, 29992, 39006, 21029] (h_text h)
               then u1\<lparr>usage_category := txt\<rparr>
             else if contains [20363, 21477] (h_text h) then
               (if txt \<noteq> [] then
                  u1\<lparr>usage_examples := examples @
                       filter (\<lambda>l. l \<noteq> []) (map strip_newlines (re_split [Plus is_nl] txt))\<rparr>
                else u1)
             else u1)
      in usage_headings hs u2)"

definition parse_usage_td :: "cell option \<Rightarrow> usage" where
  "parse_usage_td td =
     (case td of
        None \<Rightarrow> \<lparr>usage_meaning = [], usage_category = [], usage_examples = []\<rparr>
      | Some c \<Rightarrow>
          (let u = usage_headings (c_headings c)
                     \<lparr>usage_meaning = [], usage_category = [], usage_examples = []\<rparr>
           in u\<lparr>usage_examples :=
                  map (\<lambda>x. norm_space (strip_newlines x)) (usage_examples u)\<rparr>))"

definition parse_citations_td :: "cell option \<Rightarrow> ustr" where
  "parse_citations_td td =
     (case td of
        None \<Rightarrow> []
      | Some c \<Rightarrow>
          if c_items c \<noteq> [] then join [10] (map norm_space (c_items c))
          else norm_space (c_text c))"

section \<open>Replacement templates\<close>

text \<open>
  \<^verbatim>\<open>pat.sub(title, ex)\<close> reads the title as a replacement template. A template is
  parsed before any match is looked for, and parsing fails (\<^verbatim>\<open>re.error\<close>, and
  \<^verbatim>\<open>IndexError\<close> for an unknown group name) on a backslash at the end, on a backslash
  before an ASCII letter that is not an escape, and on a reference to a group the pattern
  does not have. The pattern here has no group, so only group 0 can be referred to.
\<close>

datatype tpart = Lit nat | Whole

definition is_oct :: "nat \<Rightarrow> bool" where
  "is_oct c \<longleftrightarrow> 48 \<le> c \<and> c \<le> 55"

definition is_dec :: "nat \<Rightarrow> bool" where
  "is_dec c \<longleftrightarrow> 48 \<le> c \<and> c \<le> 57"

definition is_ascii_letter :: "nat \<Rightarrow> bool" where
  "is_ascii_letter c \<longleftrightarrow> (65 \<le> c \<and> c \<le> 90) \<or> (97 \<le> c \<and> c \<le> 122)"

text \<open>The escapes \<^verbatim>\<open>\a \b \f \n \r \t \v \\\<close>.\<close>

definition escape_of :: "nat \<Rightarrow> nat option" where
  "escape_of c =
     (if c = 97 then Some 7 else if c = 98 then Some 8 else if c = 102 then Some 12
      else if c = 110 then Some 10 else if c = 114 then Some 13 else if c = 116 then Some 9
      else if c = 118 then Some 11 else if c = 92 then Some 92 else None)"

definition tcons :: "tpart \<Rightarrow> tpart list option \<Rightarrow> tpart list option" where
  "tcons p r = (case r of None \<Rightarrow> None | Some ps \<Rightarrow> Some (p # ps))"

function parse_template :: "ustr \<Rightarrow> tpart list option" where
  "parse_template [] = Some []"
| "parse_template (c # cs) =
     (if c \<noteq> 92 then tcons (Lit c) (parse_template cs)
      else
        (case cs of
           [] \<Rightarrow> None
         | d # ds \<Rightarrow>
             if d = 103 then
               (case ds of
                  [] \<Rightarrow> None
                | b # rest \<Rightarrow>
                    if b \<noteq> 60 then None
                    else if dropWhile (\<lambda>x. x \<noteq> 62) rest = [] then None
                    else if takeWhile (\<lambda>x. x \<noteq> 62) rest = [] then None
                    else if list_all (\<lambda>x. x = 48) (takeWhile (\<lambda>x. x \<noteq> 62) rest)
                      then tcons Whole (parse_template (tl (dropWhile (\<lambda>x. x \<noteq> 62) rest)))
                    else None)
             else if d = 48 then
               (case ds of
                  [] \<Rightarrow> tcons (Lit 0) (parse_template ds)
                | e # es \<Rightarrow>
                    if is_oct e then
                      (case es of
                         [] \<Rightarrow> tcons (Lit (e - 48)) (parse_template es)
                       | f # fs \<Rightarrow>
                           if is_oct f
                           then tcons (Lit ((8 * (e - 48) + (f - 48)) mod 256)) (parse_template fs)
                           else tcons (Lit (e - 48)) (parse_template es))
                    else tcons (Lit 0) (parse_template ds))
             else if is_dec d then
               (case ds of
                  [] \<Rightarrow> None
                | e # es \<Rightarrow>
                    if is_dec e then
                      (case es of
                         [] \<Rightarrow> None
                       | f # fs \<Rightarrow>
                           if is_oct d \<and> is_oct e \<and> is_oct f then
                             (if 255 < 64 * (d - 48) + 8 * (e - 48) + (f - 48) then None
                              else tcons (Lit (64 * (d - 48) + 8 * (e - 48) + (f - 48)))
                                     (parse_template fs))
                           else None)
                    else None)
             else
               (case escape_of d of
                  Some v \<Rightarrow> tcons (Lit v) (parse_template ds)
                | None \<Rightarrow>
                    if is_ascii_letter d then None
                    else tcons (Lit 92) (tcons (Lit d) (parse_template ds)))))"
  by pat_completeness auto
termination
proof (relation "measure length")
  fix c d b :: nat and cs ds rest :: ustr
  assume "cs = d # ds" "ds = b # rest"
  then have "length (tl (dropWhile (\<lambda>x. x \<noteq> 62) rest)) < length (c # cs)"
    using length_dropWhile_le[of "\<lambda>x. x \<noteq> 62" rest] by simp
  then show "(tl (dropWhile (\<lambda>x. x \<noteq> 62) rest), c # cs) \<in> measure length" by simp
qed simp_all

definition expand_template :: "tpart list \<Rightarrow> ustr list \<Rightarrow> ustr" where
  "expand_template ps gs = concat (map (\<lambda>p. case p of Lit c \<Rightarrow> [c] | Whole \<Rightarrow> grp gs 0) ps)"

section \<open>Parsing a page\<close>

text \<open>
  The exceptions that matter to the loop: \<^verbatim>\<open>NotFound\<close>, and the others, which
  \<^verbatim>\<open>except Exception\<close> catches: a failed request (\<^verbatim>\<open>requests\<close> raises, or
  \<^verbatim>\<open>raise_for_status\<close> does), a failed template (\<^verbatim>\<open>re.error\<close>) and a file that
  cannot be opened (\<^verbatim>\<open>OSError\<close>).
\<close>

datatype exn = NotFound | RequestError | TemplateError | OSError

text \<open>The dictionary that \<^verbatim>\<open>parse_idiom\<close> returns, one field per key, in its order.\<close>

record idiom =
  d_id :: ustr
  d_url :: ustr
  d_title :: ustr
  d_bopomofo :: ustr
  d_pinyin :: ustr
  d_definition :: ustr
  d_source_title :: ustr
  d_source :: ustr
  d_source_notes :: ustr
  d_story :: ustr
  d_citations :: ustr
  d_usage_meaning :: ustr
  d_usage_category :: ustr
  d_usage_examples :: "ustr list"
  d_synonyms :: "ustr list"
  d_synonym_links :: "ustr list"
  d_antonyms :: "ustr list"
  d_antonym_links :: "ustr list"
  d_comparison :: ustr
  d_references :: ustr
  d_fulltext :: ustr

text \<open>
  The example sentences with the title as pattern and as template:
  \<^verbatim>\<open>re.compile(rf"\s*{re.escape(title)}\s*")\<close>, then \<^verbatim>\<open>pat.sub(title, ex)\<close> for each
  example. Nothing is called when there is no example.
\<close>

definition title_pat :: "ustr \<Rightarrow> atom list" where
  "title_pat title = Star is_space # map (\<lambda>x. Ch x) title @ [Star is_space]"

definition sub_title :: "ustr \<Rightarrow> ustr list \<Rightarrow> exn + ustr list" where
  "sub_title title examples =
     (if title = [] \<or> examples = [] then Inr examples
      else
        (case parse_template title of
           None \<Rightarrow> Inl TemplateError
         | Some ps \<Rightarrow> Inr (map (re_sub (title_pat title) (expand_template ps)) examples)))"

text \<open>The lines of the full text; the labels are given by their code points.\<close>

definition fulltext_lines ::
  "ustr \<Rightarrow> ustr \<Rightarrow> ustr \<Rightarrow> ustr \<Rightarrow> ustr \<Rightarrow> ustr \<Rightarrow> ustr list \<Rightarrow> derived \<Rightarrow> ustr list" where
  "fulltext_lines title bopomofo pinyin definition story citations examples x =
     [[25104, 35486, 65306] @ title,
      [27880, 38899, 65306] @ bopomofo,
      [28450, 35486, 25340, 38899, 65306] @ pinyin,
      [37323, 32681, 65306] @ definition]
     @ (if x_source_title x \<noteq> [] \<and> x_source x \<noteq> [] then
          [if x_source_title x = [65283] then [20856, 28304, 65306] @ x_source x
           else [20856, 28304, 65306] @ x_source_title x @ x_source x]
        else [])
     @ (if x_source_notes x \<noteq> [] then [[27880, 35299, 65306] @ x_source_notes x] else [])
     @ (if story \<noteq> [] then [[20856, 25925, 35498, 26126, 65306] @ story] else [])
     @ (if citations \<noteq> [] then [[26360, 35657, 65306] @ citations] else [])
     @ (if examples \<noteq> [] then [[20363, 21477, 65306] @ join [65307] examples] else [])
     @ (if x_synonyms x \<noteq> [] then
          [[36817, 32681, 25104, 35486, 65306] @ join [12289] (x_synonyms x)] else [])
     @ (if x_antonyms x \<noteq> [] then
          [[21453, 32681, 25104, 35486, 65306] @ join [12289] (x_antonyms x)] else [])
     @ (if x_comparison x \<noteq> [] then [[27604, 36611, 35498, 26126, 65306] @ x_comparison x]
        else [])
     @ (if x_references_fmt x \<noteq> [] then
          [[21443, 32771, 35422, 35486, 65306] @ x_references_fmt x] else [])"

text \<open>
  \<^verbatim>\<open>title_clean\<close>: \<^verbatim>\<open>re.sub(r'[^\w\u4e00-\u9fff]', '', title.strip())\<close>.
\<close>

definition title_clean :: "(nat \<Rightarrow> bool) \<Rightarrow> ustr \<Rightarrow> ustr" where
  "title_clean U title =
     re_sub [One (\<lambda>c. \<not> (is_word U c \<or> (19968 \<le> c \<and> c \<le> 40959)))] (\<lambda>gs. []) (strip title)"

text \<open>
  \<^verbatim>\<open>parse_idiom\<close> after the request: \<open>page\<close> is \<open>idiom_table (only_article soup)\<close>.
  The steps follow the source: no table, the fields, the example sentences (where the
  template can fail), the full text, the three validity checks, the record.
\<close>

definition parse_page ::
  "(nat \<Rightarrow> bool) \<Rightarrow> (nat \<Rightarrow> bool) \<Rightarrow> ustr \<Rightarrow> ustr \<Rightarrow> table option \<Rightarrow> exn + idiom" where
  "parse_page U D id_value url page =
     (case page of
        None \<Rightarrow> Inl NotFound
      | Some tbl \<Rightarrow>
          let rows = t_rows tbl;
              x = t_derived tbl;
              title = text_in_td rows th_title;
              bopomofo = strip_newlines (condense_zhuyin (text_in_td rows th_bopomofo));
              pinyin = text_in_td rows th_pinyin;
              definition =
                fix_inline_markers_and_quotes (strip_bpmf_adjacent_newlines (condense_zhuyin
                  (replace_arrow_notes D (text_in_td rows th_definition))));
              story =
                fix_inline_markers_and_quotes (strip_bpmf_adjacent_newlines (condense_zhuyin
                  (text_in_td rows th_story)));
              citations =
                strip_bpmf_adjacent_newlines (condense_zhuyin
                  (parse_citations_td (td_by_th rows th_citations)));
              usage = parse_usage_td (td_by_th rows th_usage);
              references_raw = text_in_td rows th_references
          in
            (case sub_title title (usage_examples usage) of
               Inl e \<Rightarrow> Inl e
             | Inr examples \<Rightarrow>
                 if title = [] \<or> strip title = [] then Inl NotFound
                 else if length (title_clean U title) < 2 then Inl NotFound
                 else if strip bopomofo = [] \<and> strip definition = [] then Inl NotFound
                 else
                   Inr \<lparr>d_id = id_value, d_url = url, d_title = title, d_bopomofo = bopomofo,
                        d_pinyin = pinyin, d_definition = definition,
                        d_source_title = x_source_title x, d_source = x_source x,
                        d_source_notes = x_source_notes x, d_story = story,
                        d_citations = citations,
                        d_usage_meaning = usage_meaning usage,
                        d_usage_category = usage_category usage,
                        d_usage_examples = examples,
                        d_synonyms = x_synonyms x, d_synonym_links = x_synonym_links x,
                        d_antonyms = x_antonyms x, d_antonym_links = x_antonym_links x,
                        d_comparison = x_comparison x, d_references = references_raw,
                        d_fulltext =
                          rm_blanklines (join [10]
                            (fulltext_lines title bopomofo pinyin definition story citations
                               examples x))\<rparr>))"

section \<open>The request\<close>

text \<open>
  \<^verbatim>\<open>add_params\<close> on a parsed URL: the part before \<^verbatim>\<open>?\<close> and the pairs of the query.
  Each parameter replaces the value of its key or is added at the end; the result is
  written out again. The keys and values here are ASCII letters, digits and \<^verbatim>\<open>-\<close>, which
  \<^verbatim>\<open>urlencode\<close> leaves as they are; the id is \<^verbatim>\<open>str(idx)\<close>, which is not empty, so that
  \<^verbatim>\<open>parse_qs\<close> keeps it. For another id (an empty one, or one with characters that are
  quoted) the URL of the program differs from the one below.
\<close>

fun set_param :: "ustr \<times> ustr \<Rightarrow> (ustr \<times> ustr) list \<Rightarrow> (ustr \<times> ustr) list" where
  "set_param (k, v) [] = [(k, v)]"
| "set_param (k, v) ((k', v') # q) =
     (if k' = k then (k, v) # q else (k', v') # set_param (k, v) q)"

definition add_params :: "ustr \<times> (ustr \<times> ustr) list \<Rightarrow> (ustr \<times> ustr) list \<Rightarrow> ustr" where
  "add_params u params =
     fst u @ [63] @ join [38] (map (\<lambda>(k, v). k @ [61] @ v) (foldl (\<lambda>q p. set_param p q) (snd u) params))"

text \<open>
  \<^verbatim>\<open>BASE + VIEW\<close> is \<^verbatim>\<open>https://dict.idioms.moe.edu.tw/idiomView.jsp\<close>; the keys are
  \<^verbatim>\<open>ID\<close>, \<^verbatim>\<open>webMd\<close> and \<^verbatim>\<open>la\<close>.
\<close>

definition base_view :: ustr where
  "base_view =
     [104, 116, 116, 112, 115, 58, 47, 47, 100, 105, 99, 116, 46, 105, 100, 105, 111, 109, 115,
      46, 109, 111, 101, 46, 101, 100, 117, 46, 116, 119,
      47, 105, 100, 105, 111, 109, 86, 105, 101, 119, 46, 106, 115, 112]"

definition idiom_url :: "ustr \<Rightarrow> ustr" where
  "idiom_url id_value =
     add_params (base_view, [([73, 68], id_value)])
       [([119, 101, 98, 77, 100], [50]), ([108, 97], [48])]"

text \<open>
  The world outside the program: the requests made so far, the files, and the number of
  \<^verbatim>\<open>time.sleep\<close> calls. The site is a function of the number of earlier requests and
  the URL, so that it may answer the same URL differently later; it answers with a page
  (the table of its article, if any) or the request fails.
\<close>

record world =
  w_gets :: "ustr list"
  w_files :: "ustr \<Rightarrow> ustr option"
  w_sleeps :: nat

type_synonym site = "nat \<Rightarrow> ustr \<Rightarrow> table option option"

definition get_soup :: "site \<Rightarrow> ustr \<Rightarrow> world \<Rightarrow> (exn + table option) \<times> world" where
  "get_soup net url w =
     ((case net (length (w_gets w)) url of None \<Rightarrow> Inl RequestError | Some page \<Rightarrow> Inr page),
      w\<lparr>w_gets := w_gets w @ [url]\<rparr>)"

definition parse_idiom ::
  "(nat \<Rightarrow> bool) \<Rightarrow> (nat \<Rightarrow> bool) \<Rightarrow> site \<Rightarrow> ustr \<Rightarrow> world \<Rightarrow> (exn + idiom) \<times> world" where
  "parse_idiom U D net id_value w =
     (let url = idiom_url id_value;
          (r, w') = get_soup net url w
      in (case r of
            Inl e \<Rightarrow> (Inl e, w')
          | Inr page \<Rightarrow> (parse_page U D id_value url page, w')))"

section \<open>Writing an entry\<close>

text \<open>
  \<^verbatim>\<open>json.dumps\<close> with \<^verbatim>\<open>ensure_ascii=False\<close>. A string is written between double
  quotes with \<^verbatim>\<open>"\<close>, \<^verbatim>\<open>\\<close> and the characters below U+0020 escaped; every other
  character stands for itself.
\<close>

definition hexd :: "nat \<Rightarrow> nat" where
  "hexd n = (if n < 10 then 48 + n else 87 + n)"

definition json_esc :: "nat \<Rightarrow> ustr" where
  "json_esc c =
     (if c = 34 then [92, 34] else if c = 92 then [92, 92] else if c = 10 then [92, 110]
      else if c = 13 then [92, 114] else if c = 9 then [92, 116] else if c = 8 then [92, 98]
      else if c = 12 then [92, 102]
      else if c < 32 then [92, 117, 48, 48, hexd (c div 16), hexd (c mod 16)]
      else [c])"

definition json_str :: "ustr \<Rightarrow> ustr" where
  "json_str s = [34] @ concat (map json_esc s) @ [34]"

datatype jval = JStr ustr | JList "ustr list"

definition asc :: "string \<Rightarrow> ustr" where
  "asc s = map of_char s"

text \<open>The items of the dictionary, in insertion order.\<close>

definition idiom_items :: "idiom \<Rightarrow> (string \<times> jval) list" where
  "idiom_items d =
     [(''id'', JStr (d_id d)),
      (''url'', JStr (d_url d)),
      (''title'', JStr (d_title d)),
      (''bopomofo'', JStr (d_bopomofo d)),
      (''pinyin'', JStr (d_pinyin d)),
      (''definition'', JStr (d_definition d)),
      (''source_title'', JStr (d_source_title d)),
      (''source'', JStr (d_source d)),
      (''source_notes'', JStr (d_source_notes d)),
      (''story'', JStr (d_story d)),
      (''citations'', JStr (d_citations d)),
      (''usage_meaning'', JStr (d_usage_meaning d)),
      (''usage_category'', JStr (d_usage_category d)),
      (''usage_examples'', JList (d_usage_examples d)),
      (''synonyms'', JList (d_synonyms d)),
      (''synonym_links'', JList (d_synonym_links d)),
      (''antonyms'', JList (d_antonyms d)),
      (''antonym_links'', JList (d_antonym_links d)),
      (''comparison'', JStr (d_comparison d)),
      (''references'', JStr (d_references d)),
      (''fulltext'', JStr (d_fulltext d))]"

text \<open>Without \<^verbatim>\<open>indent\<close>: the separators are \<^verbatim>\<open>", "\<close> and \<^verbatim>\<open>": "\<close>.\<close>

definition json_val :: "jval \<Rightarrow> ustr" where
  "json_val v =
     (case v of
        JStr s \<Rightarrow> json_str s
      | JList xs \<Rightarrow> [91] @ join [44, 32] (map json_str xs) @ [93])"

definition json_dumps :: "idiom \<Rightarrow> ustr" where
  "json_dumps d =
     [123] @ join [44, 32] (map (\<lambda>(k, v). json_str (asc k) @ [58, 32] @ json_val v) (idiom_items d))
     @ [125]"

text \<open>
  With \<^verbatim>\<open>indent=2\<close>: every item on a line of its own, indented by two spaces per
  level; an empty list is \<^verbatim>\<open>[]\<close>.
\<close>

definition json_val_indent :: "jval \<Rightarrow> ustr" where
  "json_val_indent v =
     (case v of
        JStr s \<Rightarrow> json_str s
      | JList xs \<Rightarrow>
          if xs = [] then [91, 93]
          else [91, 10, 32, 32, 32, 32] @ join [44, 10, 32, 32, 32, 32] (map json_str xs)
               @ [10, 32, 32, 93])"

definition json_dump_indent :: "idiom \<Rightarrow> ustr" where
  "json_dump_indent d =
     [123, 10, 32, 32] @
     join [44, 10, 32, 32]
       (map (\<lambda>(k, v). json_str (asc k) @ [58, 32] @ json_val_indent v) (idiom_items d))
     @ [10, 125]"

text \<open>\<^verbatim>\<open>os.path.join\<close> of two components, on POSIX.\<close>

definition path_join :: "ustr \<Rightarrow> ustr \<Rightarrow> ustr" where
  "path_join a b =
     (if b \<noteq> [] \<and> hd b = 47 then b
      else if a = [] \<or> last a = 47 then a @ b
      else a @ [47] @ b)"

text \<open>
  The three paths of \<^verbatim>\<open>write_item\<close>: \<^verbatim>\<open>json/<base>.json\<close>, \<^verbatim>\<open>txt/<base>.txt\<close> and
  \<^verbatim>\<open>moe_idioms.jsonl\<close> under the output directory, where \<^verbatim>\<open><base>\<close> is the id, an
  underscore and the slug of the title.
\<close>

definition item_base :: "(nat \<Rightarrow> bool) \<Rightarrow> idiom \<Rightarrow> ustr" where
  "item_base U d = d_id d @ [95] @ safe_slug U (d_title d)"

definition js_path :: "(nat \<Rightarrow> bool) \<Rightarrow> ustr \<Rightarrow> idiom \<Rightarrow> ustr" where
  "js_path U out_dir d =
     path_join (path_join out_dir [106, 115, 111, 110]) (item_base U d @ [46, 106, 115, 111, 110])"

definition tx_path :: "(nat \<Rightarrow> bool) \<Rightarrow> ustr \<Rightarrow> idiom \<Rightarrow> ustr" where
  "tx_path U out_dir d =
     path_join (path_join out_dir [116, 120, 116]) (item_base U d @ [46, 116, 120, 116])"

definition jl_path :: "ustr \<Rightarrow> ustr" where
  "jl_path out_dir =
     path_join out_dir
       [109, 111, 101, 95, 105, 100, 105, 111, 109, 115, 46, 106, 115, 111, 110, 108]"

text \<open>
  A file name on the file systems of Linux holds at most 255 bytes (\<^verbatim>\<open>NAME_MAX\<close>), and the
  program runs with UTF-8 file names: \<open>name_bytes\<close> is the length of a string in that
  encoding.
\<close>

definition name_max :: nat where
  "name_max = 255"

definition utf8_len :: "nat \<Rightarrow> nat" where
  "utf8_len c = (if c < 128 then 1 else if c < 2048 then 2 else if c < 65536 then 3 else 4)"

definition name_bytes :: "ustr \<Rightarrow> nat" where
  "name_bytes n = sum_list (map utf8_len n)"

text \<open>Opening a file with mode \<^verbatim>\<open>w\<close> or \<^verbatim>\<open>a\<close> and writing one string.\<close>

definition write_file :: "ustr \<Rightarrow> ustr \<Rightarrow> (ustr \<Rightarrow> ustr option) \<Rightarrow> (ustr \<Rightarrow> ustr option)" where
  "write_file p s files = files(p \<mapsto> s)"

definition append_file :: "ustr \<Rightarrow> ustr \<Rightarrow> (ustr \<Rightarrow> ustr option) \<Rightarrow> (ustr \<Rightarrow> ustr option)" where
  "append_file p s files = files(p \<mapsto> (case files p of None \<Rightarrow> [] | Some old \<Rightarrow> old) @ s)"

text \<open>
  \<^verbatim>\<open>write_item\<close>. The directories exist or can be made, and a file can be opened and
  written unless its name is too long: then \<^verbatim>\<open>open\<close> raises \<^verbatim>\<open>OSError\<close>. The name of
  the JSON file is the longest of the three and is opened first, so that nothing has been
  written when it fails. The id is that of \<^verbatim>\<open>main\<close>, \<^verbatim>\<open>str(idx)\<close>, and the slug has no
  \<^verbatim>\<open>/\<close>: the name of the JSON file is \<^verbatim>\<open><base>.json\<close>. The paths that \<^verbatim>\<open>write_item\<close> returns
  are not used by \<^verbatim>\<open>main\<close>.
\<close>

definition write_item :: "(nat \<Rightarrow> bool) \<Rightarrow> ustr \<Rightarrow> idiom \<Rightarrow> world \<Rightarrow> exn + world" where
  "write_item U out_dir d w =
     (if name_max < name_bytes (item_base U d @ [46, 106, 115, 111, 110]) then Inl OSError
      else
        Inr (w\<lparr>w_files :=
               append_file (jl_path out_dir) (json_dumps d @ [10])
                 (write_file (tx_path U out_dir d) (d_fulltext d @ [10])
                    (write_file (js_path U out_dir d) (json_dump_indent d) (w_files w)))\<rparr>))"

section \<open>The loop\<close>

text \<open>\<^verbatim>\<open>str(n)\<close> for an integer.\<close>

function dec_nat :: "nat \<Rightarrow> ustr" where
  "dec_nat n = (if n < 10 then [48 + n] else dec_nat (n div 10) @ [48 + n mod 10])"
  by pat_completeness auto
termination
  by (relation "measure id") auto

declare dec_nat.simps [simp del]

definition str_int :: "int \<Rightarrow> ustr" where
  "str_int i = (if i < 0 then 45 # dec_nat (nat (- i)) else dec_nat (nat i))"

record args =
  start_id :: int
  step :: int
  out_dir :: ustr
  max_misses :: int

record crawl =
  idx :: int
  consecutive_miss :: int
  ok_cnt :: int
  miss_cnt :: int
  err_cnt :: int
  outside :: world

definition init :: "args \<Rightarrow> world \<Rightarrow> crawl" where
  "init a w =
     \<lparr>idx = start_id a, consecutive_miss = 0, ok_cnt = 0, miss_cnt = 0, err_cnt = 0,
      outside = w\<rparr>"

text \<open>The end of the loop body: \<^verbatim>\<open>idx += args.step\<close> and \<^verbatim>\<open>time.sleep(0.1)\<close>.\<close>

definition advance :: "args \<Rightarrow> crawl \<Rightarrow> crawl" where
  "advance a st =
     st\<lparr>idx := idx st + step a,
        outside := (outside st)\<lparr>w_sleeps := w_sleeps (outside st) + 1\<rparr>\<rparr>"

text \<open>
  One pass through the body of \<^verbatim>\<open>while True\<close>. The result says whether the loop was
  left by \<^verbatim>\<open>break\<close>. An exception of \<^verbatim>\<open>write_item\<close> is caught by \<^verbatim>\<open>except Exception\<close>
  like one of \<^verbatim>\<open>parse_idiom\<close>. What is printed is not modelled.
\<close>

definition iteration ::
  "(nat \<Rightarrow> bool) \<Rightarrow> (nat \<Rightarrow> bool) \<Rightarrow> site \<Rightarrow> args \<Rightarrow> crawl \<Rightarrow> bool \<times> crawl" where
  "iteration U D net a st =
     (let (r, w1) = parse_idiom U D net (str_int (idx st)) (outside st)
      in (case r of
            Inr d \<Rightarrow>
              (case write_item U (out_dir a) d w1 of
                 Inr w2 \<Rightarrow>
                   (False,
                    advance a (st\<lparr>outside := w2, ok_cnt := ok_cnt st + 1,
                                   consecutive_miss := 0\<rparr>))
               | Inl e \<Rightarrow>
                   (False,
                    advance a (st\<lparr>outside := w1, err_cnt := err_cnt st + 1,
                                   consecutive_miss := 0\<rparr>)))
          | Inl NotFound \<Rightarrow>
              (let st1 = st\<lparr>outside := w1, miss_cnt := miss_cnt st + 1,
                             consecutive_miss := consecutive_miss st + 1\<rparr>
               in if max_misses a \<le> consecutive_miss st1 then (True, st1)
                  else (False, advance a st1))
          | Inl e \<Rightarrow>
              (False,
               advance a (st\<lparr>outside := w1, err_cnt := err_cnt st + 1,
                              consecutive_miss := 0\<rparr>))))"

text \<open>At most \<open>n\<close> passes: whether the loop was left, and the state reached.\<close>

fun crawl_n ::
  "(nat \<Rightarrow> bool) \<Rightarrow> (nat \<Rightarrow> bool) \<Rightarrow> site \<Rightarrow> args \<Rightarrow> nat \<Rightarrow> crawl \<Rightarrow> bool \<times> crawl" where
  "crawl_n U D net a 0 st = (False, st)"
| "crawl_n U D net a (Suc n) st =
     (case iteration U D net a st of
        (True, st') \<Rightarrow> (True, st')
      | (False, st') \<Rightarrow> crawl_n U D net a n st')"

text \<open>The loop itself; it may run forever.\<close>

partial_function (option) main_loop ::
  "(nat \<Rightarrow> bool) \<Rightarrow> (nat \<Rightarrow> bool) \<Rightarrow> site \<Rightarrow> args \<Rightarrow> crawl \<Rightarrow> crawl option" where
  "main_loop U D net a st =
     (if fst (iteration U D net a st) then Some (snd (iteration U D net a st))
      else main_loop U D net a (snd (iteration U D net a st)))"

section \<open>Facts about the matcher\<close>

declare rmatch.simps(6) [simp del]
declare re_sub_at.simps [simp del]

lemma try_down_all_Some:
  "(\<And>j. f j \<noteq> None) \<Longrightarrow> try_down f lo hi = (if lo \<le> hi then f hi else None)"
  by (cases hi) (auto split: option.splits, metis option.distinct(1))

lemma rmatch_plus:
  "rmatch [Plus P] prev s =
     (if takeWhile P s = [] then None else Some (length (takeWhile P s), []))"
  by (simp add: rmatch.simps(6) try_down_all_Some Suc_le_eq)

lemma rmatch_one:
  "rmatch (One P # as) prev s =
     (case s of
        [] \<Rightarrow> None
      | c # cs \<Rightarrow>
          if P c then (case rmatch as (Some c) cs of None \<Rightarrow> None | Some (n, gs) \<Rightarrow> Some (Suc n, gs))
          else None)"
  by (cases s) (auto simp: rmatch.simps(6) prev_after_def split: option.splits)

lemma takeWhile_nth_P: "j < length (takeWhile P s) \<Longrightarrow> P (s ! j)"
  by (metis nth_mem set_takeWhileD takeWhile_nth)

lemma is_space_nl [simp]: "is_space 10"
  by (simp add: is_space_def)

lemma takeWhile_end: "length (takeWhile P s) < length s \<Longrightarrow> \<not> P (s ! length (takeWhile P s))"
  by (rule nth_length_takeWhile)

lemma one_after:
  "(case rmatch [One P] p (drop j s) of None \<Rightarrow> None
    | Some (n, gs) \<Rightarrow> Some (j + n, g @ gs)) =
   (if j < length s \<and> P (s ! j) then Some (Suc j, g) else None)"
proof (cases "j < length s")
  case True
  then have "drop j s = s ! j # drop (Suc j) s" by (simp add: Cons_nth_drop_Suc)
  then show ?thesis using True by (simp add: rmatch_one)
next
  case False
  then show ?thesis by (simp add: rmatch_one)
qed

lemma rmatch_sp_nl:
  "rmatch [Plus is_space, One is_nl] prev s = Some r \<longleftrightarrow>
     (\<exists>j. 1 \<le> j \<and> j < length (takeWhile is_space s) \<and> s ! j = 10 \<and>
          (\<forall>i. j < i \<and> i < length (takeWhile is_space s) \<longrightarrow> s ! i \<noteq> 10) \<and> r = (Suc j, []))"
  (is "?L \<longleftrightarrow> ?R")
proof -
  let ?k = "length (takeWhile is_space s)"
  let ?f = "\<lambda>j. if j < length s \<and> is_nl (s ! j) then Some (Suc j, []::ustr list) else None"
  have L: "rmatch [Plus is_space, One is_nl] prev s = try_down ?f 1 ?k"
    by (subst rmatch.simps(6)) (simp add: one_after cong: if_cong)
  have k: "?f ?k = None"
    using takeWhile_end[of is_space s] by (auto simp: is_nl_def)
  have klen: "?k \<le> length s" by (rule length_takeWhile_le)
  show ?thesis
  proof
    assume ?L
    then obtain j where j: "1 \<le> j" "j \<le> ?k" "?f j = Some r" "\<forall>i. j < i \<and> i \<le> ?k \<longrightarrow> ?f i = None"
      unfolding L try_down_Some by blast
    from j(3) k have "j \<noteq> ?k" by auto
    with j(2) have jk: "j < ?k" by simp
    from j(3) have sj: "s ! j = 10" "r = (Suc j, [])" by (auto simp: is_nl_def split: if_splits)
    have "\<forall>i. j < i \<and> i < ?k \<longrightarrow> s ! i \<noteq> 10"
    proof (intro allI impI)
      fix i assume i: "j < i \<and> i < ?k"
      with j(4) have "?f i = None" by simp
      moreover from i klen have "i < length s" by simp
      ultimately show "s ! i \<noteq> 10" by (auto simp: is_nl_def split: if_splits)
    qed
    with j(1) jk sj show ?R by blast
  next
    assume ?R
    then obtain j where j: "1 \<le> j" "j < ?k" "s ! j = 10"
      "\<forall>i. j < i \<and> i < ?k \<longrightarrow> s ! i \<noteq> 10" "r = (Suc j, [])" by blast
    from j(2) klen have "j < length s" by simp
    with j(3,5) have fj: "?f j = Some r" by (simp add: is_nl_def)
    have "\<forall>i. j < i \<and> i \<le> ?k \<longrightarrow> ?f i = None"
    proof (intro allI impI)
      fix i assume i: "j < i \<and> i \<le> ?k"
      show "?f i = None"
      proof (cases "i = ?k")
        case True
        with k show ?thesis by (auto split: if_splits)
      next
        case False
        with i have "i < ?k" by simp
        with i j(4) show ?thesis by (simp add: is_nl_def)
      qed
    qed
    with j(1,2) fj show ?L unfolding L try_down_Some by (intro exI[of _ j]) simp
  qed
qed

lemma rmatch_sp_nl_None:
  "rmatch [Plus is_space, One is_nl] prev s = None \<longleftrightarrow>
     (\<forall>j. 1 \<le> j \<and> j < length (takeWhile is_space s) \<longrightarrow> s ! j \<noteq> 10)"
proof -
  have "rmatch [Plus is_space, One is_nl] prev s = None \<longleftrightarrow>
        (\<forall>r. rmatch [Plus is_space, One is_nl] prev s \<noteq> Some r)"
    by (rule not_Some_eq[symmetric])
  also have "\<dots> \<longleftrightarrow> (\<forall>j. 1 \<le> j \<and> j < length (takeWhile is_space s) \<longrightarrow> s ! j \<noteq> 10)"
    (is "?A \<longleftrightarrow> ?B")
  proof
    assume a: ?A
    show ?B
    proof (rule ccontr)
      assume "\<not> ?B"
      then obtain j where j: "1 \<le> j" "j < length (takeWhile is_space s)" "s ! j = 10" by blast
      define m where "m = (GREATEST i. i < length (takeWhile is_space s) \<and> s ! i = 10)"
      have m: "m < length (takeWhile is_space s) \<and> s ! m = 10"
        unfolding m_def
        by (rule GreatestI_nat[where b = "length (takeWhile is_space s)", of _ j]) (use j in auto)
      have mge: "\<And>i. i < length (takeWhile is_space s) \<and> s ! i = 10 \<Longrightarrow> i \<le> m"
        unfolding m_def
        by (rule Greatest_le_nat[where b = "length (takeWhile is_space s)"]) auto
      from mge[of j] j have "1 \<le> m" by simp
      moreover have "\<forall>i. m < i \<and> i < length (takeWhile is_space s) \<longrightarrow> s ! i \<noteq> 10"
        using mge by fastforce
      ultimately have "rmatch [Plus is_space, One is_nl] prev s = Some (Suc m, [])"
        unfolding rmatch_sp_nl using m by blast
      with a show False by simp
    qed
  next
    assume ?B
    then show ?A unfolding rmatch_sp_nl by blast
  qed
  finally show ?thesis .
qed


function sub_runs :: "(nat \<Rightarrow> bool) \<Rightarrow> nat \<Rightarrow> ustr \<Rightarrow> ustr \<Rightarrow> ustr" where
  "sub_runs P lo r [] = []"
| "sub_runs P lo r (c # cs) =
     (if P c \<and> lo \<le> Suc (length (takeWhile P cs)) then r @ sub_runs P lo r (dropWhile P cs)
      else c # sub_runs P lo r cs)"
  by pat_completeness auto
termination
  by (relation "measure (\<lambda>(P, lo, r, s). length s)")
     (auto simp: less_Suc_eq_le length_dropWhile_le)

lemma rmatch_rep_only:
  "rmatch [Rep P lo None False] prev s =
     (if lo \<le> length (takeWhile P s) then Some (length (takeWhile P s), []) else None)"
  by (simp add: rmatch.simps(6) try_down_all_Some)

lemma re_sub_runs:
  "0 < lo \<Longrightarrow> re_sub_at [Rep P lo None False] (\<lambda>gs. r) prev s = sub_runs P lo r s"
proof (induction P lo r s arbitrary: prev rule: sub_runs.induct)
  case (1 P lo r)
  then show ?case by (subst re_sub_at.simps) (simp add: rmatch_rep_only)
next
  case (2 P lo r c cs)
  show ?case
  proof (cases "P c \<and> lo \<le> Suc (length (takeWhile P cs))")
    case True
    have d: "drop (length (takeWhile P cs)) cs = dropWhile P cs"
      by (simp add: dropWhile_eq_drop)
    show ?thesis
      using True 2(1)[OF True 2(3)] 2(3)
      by (subst re_sub_at.simps) (simp add: rmatch_rep_only d)
  next
    case False
    then show ?thesis
      using 2(2)[OF False 2(3)] 2(3)
      by (subst re_sub_at.simps) (auto simp add: rmatch_rep_only)
  qed
qed


fun hws_ok :: "nat option \<Rightarrow> ustr \<Rightarrow> bool" where
  "hws_ok p [] = True"
| "hws_ok p (c # cs) = ((is_hws c \<longrightarrow> c = 32 \<and> p \<noteq> Some 32) \<and> hws_ok (Some c) cs)"

fun nl_ok :: "nat option \<Rightarrow> ustr \<Rightarrow> bool" where
  "nl_ok p [] = True"
| "nl_ok p (c # cs) = ((c = 10 \<longrightarrow> (\<forall>d. p = Some d \<longrightarrow> \<not> is_space d)) \<and> nl_ok (Some c) cs)"

lemma hd_dropWhile_not: "dropWhile P xs \<noteq> [] \<Longrightarrow> \<not> P (hd (dropWhile P xs))"
  by (rule hd_dropWhile)

lemma hws_ok_step1:
  "(s \<noteq> [] \<and> is_hws (hd s) \<longrightarrow> p \<noteq> Some 32) \<Longrightarrow> hws_ok p (sub_runs is_hws (Suc 0) [32] s)"
proof (induction is_hws "Suc 0" "[32::nat]" s arbitrary: p rule: sub_runs.induct)
  case 1
  then show ?case by simp
next
  case (2 c cs)
  show ?case
  proof (cases "is_hws c")
    case True
    have "hws_ok (Some 32) (sub_runs is_hws (Suc 0) [32] (dropWhile is_hws cs))"
      using 2(1)[of "Some 32"] True hd_dropWhile_not[of is_hws cs] by auto
    with True 2(3) show ?thesis by (simp add: is_hws_def)
  next
    case False
    have "hws_ok (Some c) (sub_runs is_hws (Suc 0) [32] cs)"
      using 2(2)[of "Some c"] False by (auto simp: is_hws_def)
    with False show ?thesis by simp
  qed
qed

lemma hws_ok_fix: "hws_ok p t \<Longrightarrow> sub_runs is_hws (Suc 0) [32] t = t"
proof (induction t arbitrary: p)
  case Nil
  then show ?case by simp
next
  case (Cons c cs)
  from Cons.prems have "hws_ok (Some c) cs" by simp
  then have ih: "sub_runs is_hws (Suc 0) [32] cs = cs" by (rule Cons.IH)
  show ?case
  proof (cases "is_hws c")
    case True
    with Cons.prems have c: "c = 32" and cs: "hws_ok (Some 32) cs" by auto
    from cs have "dropWhile is_hws cs = cs" by (cases cs) auto
    with True c ih show ?thesis by simp
  next
    case False
    with ih show ?thesis by simp
  qed
qed

lemma hws_ok_weaken: "hws_ok p s \<Longrightarrow> q \<noteq> Some 32 \<Longrightarrow> hws_ok q s"
  by (cases s) auto

lemma hws_ok_drop: "hws_ok p s \<Longrightarrow> n < length s \<Longrightarrow> hws_ok (Some (s ! n)) (drop (Suc n) s)"
proof (induction s arbitrary: p n)
  case Nil
  then show ?case by simp
next
  case (Cons c cs)
  then show ?case by (cases n) auto
qed

lemma hws_ok_append: "hws_ok p (a @ b) \<Longrightarrow> hws_ok p a"
  by (induction a arbitrary: p) auto

lemma hws_ok_dropWhile: "hws_ok p s \<Longrightarrow> hws_ok None (dropWhile Q s)"
proof (induction s arbitrary: p)
  case Nil
  then show ?case by simp
next
  case (Cons c cs)
  then show ?case by (auto intro: hws_ok_weaken[of p "c # cs" None])
qed

lemma nl_ok_weaken: "nl_ok p s \<Longrightarrow> nl_ok None s"
  by (cases s) auto

lemma nl_ok_append: "nl_ok p (a @ b) \<Longrightarrow> nl_ok p a"
  by (induction a arbitrary: p) auto

lemma nl_ok_dropWhile: "nl_ok p s \<Longrightarrow> nl_ok None (dropWhile Q s)"
proof (induction s arbitrary: p)
  case Nil
  then show ?case by simp
next
  case (Cons c cs)
  then show ?case by (auto intro: nl_ok_weaken[of p "c # cs"])
qed

lemma rev_dropWhile_rev_prefix: "t = rev (dropWhile Q (rev t)) @ rev (takeWhile Q (rev t))"
proof -
  have "rev (takeWhile Q (rev t) @ dropWhile Q (rev t)) = rev (rev t)"
    by (simp only: takeWhile_dropWhile_id)
  then show ?thesis by (simp only: rev_append rev_rev_ident)
qed

lemma hws_ok_strip: "hws_ok p s \<Longrightarrow> hws_ok None (strip s)"
proof -
  assume "hws_ok p s"
  then have "hws_ok None (dropWhile is_space s)" by (rule hws_ok_dropWhile)
  then have "hws_ok None (strip s @ rev (takeWhile is_space (rev (dropWhile is_space s))))"
    unfolding strip_def using rev_dropWhile_rev_prefix[of "dropWhile is_space s" is_space] by simp
  then show ?thesis by (rule hws_ok_append)
qed

lemma nl_ok_strip: "nl_ok p s \<Longrightarrow> nl_ok None (strip s)"
proof -
  assume "nl_ok p s"
  then have "nl_ok None (dropWhile is_space s)" by (rule nl_ok_dropWhile)
  then have "nl_ok None (strip s @ rev (takeWhile is_space (rev (dropWhile is_space s))))"
    unfolding strip_def using rev_dropWhile_rev_prefix[of "dropWhile is_space s" is_space] by simp
  then show ?thesis by (rule nl_ok_append)
qed

lemma strip_idem: "strip (strip s) = strip s"
proof -
  define u where "u = dropWhile is_space s"
  define v where "v = rev (dropWhile is_space (rev u))"
  have sv: "strip s = v" by (simp add: strip_def u_def v_def)
  have uv: "u = v @ rev (takeWhile is_space (rev u))"
    unfolding v_def by (rule rev_dropWhile_rev_prefix)
  have "dropWhile is_space v = v"
  proof (cases v)
    case Nil
    then show ?thesis by simp
  next
    case (Cons a w)
    with uv have "hd u = a" "u \<noteq> []" by (cases u; simp)+
    with hd_dropWhile[of is_space s] have "\<not> is_space a" by (simp add: u_def)
    with Cons show ?thesis by simp
  qed
  moreover have "dropWhile is_space (rev v) = rev v" by (simp add: v_def)
  ultimately have "rev (dropWhile is_space (rev (dropWhile is_space v))) = v" by simp
  then have "strip v = v" by (simp only: strip_def)
  then show ?thesis by (simp only: sv)
qed


lemma step2_None:
  "rmatch [Plus is_space, One is_nl] prev s = None \<Longrightarrow>
   re_sub_at [Plus is_space, One is_nl] r prev s =
     (case s of [] \<Rightarrow> [] | c # cs \<Rightarrow> c # re_sub_at [Plus is_space, One is_nl] r (Some c) cs)"
  by (subst re_sub_at.simps) simp

lemma step2_Some:
  assumes "rmatch [Plus is_space, One is_nl] prev s = Some (Suc j, gs)" "j < length s"
  shows "re_sub_at [Plus is_space, One is_nl] r prev s =
     r (take (Suc j) s # gs) @
       re_sub_at [Plus is_space, One is_nl] r (Some (s ! j)) (drop (Suc j) s)"
proof -
  have "take (Suc j) s \<noteq> []" using assms(2) by auto
  moreover have "last (take (Suc j) s) = s ! j"
    using assms(2) by (simp add: take_Suc_conv_app_nth)
  ultimately have "prev_after prev (take (Suc j) s) = Some (s ! j)"
    by (simp add: prev_after_def)
  with assms(1) show ?thesis by (subst re_sub_at.simps) simp
qed

lemma hws_ok_step2:
  "hws_ok p s \<Longrightarrow> hws_ok p (re_sub_at [Plus is_space, One is_nl] (\<lambda>gs. [10]) prev s)"
proof (induction s arbitrary: p prev rule: length_induct)
  case (1 s)
  show ?case
  proof (cases "rmatch [Plus is_space, One is_nl] prev s")
    case None
    show ?thesis
    proof (cases s)
      case Nil
      with None show ?thesis by (simp add: step2_None)
    next
      case (Cons c cs)
      with 1 have "hws_ok (Some c) (re_sub_at [Plus is_space, One is_nl] (\<lambda>gs. [10]) (Some c) cs)"
        by simp
      with Cons None 1(2) show ?thesis by (auto simp: step2_None)
    qed
  next
    case (Some r)
    then obtain j where j: "1 \<le> j" "j < length (takeWhile is_space s)" "s ! j = 10" "r = (Suc j, [])"
      unfolding rmatch_sp_nl by blast
    have jl: "j < length s" using j(2) length_takeWhile_le[of is_space s] by simp
    have "hws_ok (Some 10) (drop (Suc j) s)"
      using hws_ok_drop[OF 1(2) jl] j(3) by simp
    with 1(1) jl have "hws_ok (Some 10)
        (re_sub_at [Plus is_space, One is_nl] (\<lambda>gs. [10]) (Some 10) (drop (Suc j) s))"
      by simp
    then show ?thesis
      using step2_Some[of prev s j "[]" "\<lambda>gs. [10]"] Some j(3,4) jl
      by (simp add: is_hws_def)
  qed
qed

lemma nl_ok_step2:
  "(\<forall>d. prev = Some d \<and> is_space d \<longrightarrow> 10 \<notin> set (takeWhile is_space s)) \<Longrightarrow>
   nl_ok prev (re_sub_at [Plus is_space, One is_nl] (\<lambda>gs. [10]) prev s)"
proof (induction s arbitrary: prev rule: length_induct)
  case (1 s)
  let ?k = "length (takeWhile is_space s)"
  show ?case
  proof (cases "rmatch [Plus is_space, One is_nl] prev s")
    case None
    show ?thesis
    proof (cases s)
      case Nil
      with None show ?thesis by (simp add: step2_None)
    next
      case (Cons c cs)
      have a: "c = 10 \<longrightarrow> (\<forall>d. prev = Some d \<longrightarrow> \<not> is_space d)"
        using 1(2) Cons by auto
      have "is_space c \<longrightarrow> 10 \<notin> set (takeWhile is_space cs)"
      proof
        assume c: "is_space c"
        show "10 \<notin> set (takeWhile is_space cs)"
        proof
          assume "10 \<in> set (takeWhile is_space cs)"
          then obtain i where i: "i < length (takeWhile is_space cs)" "takeWhile is_space cs ! i = 10"
            by (auto simp: in_set_conv_nth)
          then have "cs ! i = 10" by (simp add: takeWhile_nth)
          with i(1) c Cons have "Suc i < ?k \<and> s ! Suc i = 10" by simp
          with None show False unfolding rmatch_sp_nl_None by auto
        qed
      qed
      with 1(1) Cons have
        "nl_ok (Some c) (re_sub_at [Plus is_space, One is_nl] (\<lambda>gs. [10]) (Some c) cs)"
        by simp
      with a Cons None show ?thesis by (simp add: step2_None)
    qed
  next
    case (Some r)
    then obtain j where j: "1 \<le> j" "j < ?k" "s ! j = 10"
      "\<forall>i. j < i \<and> i < ?k \<longrightarrow> s ! i \<noteq> 10" "r = (Suc j, [])"
      unfolding rmatch_sp_nl by blast
    have jl: "j < length s" using j(2) length_takeWhile_le[of is_space s] by simp
    have in10: "10 \<in> set (takeWhile is_space s)"
      using j(2,3) by (metis nth_mem takeWhile_nth)
    with 1(2) have a: "\<forall>d. prev = Some d \<longrightarrow> \<not> is_space d" by auto
    have tw: "takeWhile is_space (drop (Suc j) s) = drop (Suc j) (takeWhile is_space s)"
    proof -
      have "s = takeWhile is_space s @ dropWhile is_space s" by simp
      then have "drop (Suc j) s = drop (Suc j) (takeWhile is_space s) @ dropWhile is_space s"
        using j(2) by (metis Suc_leI drop_append diff_is_0_eq drop0)
      moreover have "\<forall>x\<in>set (drop (Suc j) (takeWhile is_space s)). is_space x"
        by (meson in_set_dropD set_takeWhileD)
      moreover have "dropWhile is_space s = [] \<or> \<not> is_space (hd (dropWhile is_space s))"
        using hd_dropWhile[of is_space s] by blast
      ultimately show ?thesis
        by (cases "dropWhile is_space s") (auto simp: takeWhile_append2 takeWhile_append)
    qed
    have "10 \<notin> set (takeWhile is_space (drop (Suc j) s))"
    proof
      assume "10 \<in> set (takeWhile is_space (drop (Suc j) s))"
      then obtain i where i: "i < ?k - Suc j" "drop (Suc j) (takeWhile is_space s) ! i = 10"
        unfolding tw by (auto simp: in_set_conv_nth)
      then have "takeWhile is_space s ! (Suc j + i) = 10" by simp
      moreover from i(1) have "Suc j + i < ?k" by simp
      ultimately have "s ! (Suc j + i) = 10" by (simp add: takeWhile_nth)
      with j(4) \<open>Suc j + i < ?k\<close> show False by auto
    qed
    with 1(1) jl have "nl_ok (Some 10)
        (re_sub_at [Plus is_space, One is_nl] (\<lambda>gs. [10]) (Some 10) (drop (Suc j) s))"
      by simp
    then show ?thesis
      using step2_Some[of prev s j "[]" "\<lambda>gs. [10]"] Some j(3,5) jl a
      by simp
  qed
qed

lemma nl_ok_nth: "nl_ok p t \<Longrightarrow> Suc i < length t \<Longrightarrow> t ! Suc i = 10 \<Longrightarrow> \<not> is_space (t ! i)"
proof (induction t arbitrary: p i)
  case Nil
  then show ?case by simp
next
  case (Cons c cs)
  show ?case
  proof (cases i)
    case 0
    with Cons.prems show ?thesis by (cases cs) auto
  next
    case (Suc n)
    with Cons.prems Cons.IH[of "Some c" n] show ?thesis by simp
  qed
qed

lemma nl_ok_fix: "nl_ok p t \<Longrightarrow> re_sub_at [Plus is_space, One is_nl] r prev t = t"
proof (induction t arbitrary: p prev)
  case Nil
  have "rmatch [Plus is_space, One is_nl] prev [] = None"
    unfolding rmatch_sp_nl_None by simp
  then show ?case by (simp add: step2_None)
next
  case (Cons c cs)
  have "rmatch [Plus is_space, One is_nl] prev (c # cs) = None"
    unfolding rmatch_sp_nl_None
  proof (intro allI impI)
    fix j assume j: "1 \<le> j \<and> j < length (takeWhile is_space (c # cs))"
    then obtain i where i: "j = Suc i" by (cases j) auto
    from j have jl: "j < length (c # cs)"
      using length_takeWhile_le[of is_space "c # cs"] by linarith
    from j i have "i < length (takeWhile is_space (c # cs))" by simp
    then have "is_space ((c # cs) ! i)" by (rule takeWhile_nth_P)
    with nl_ok_nth[OF Cons.prems, of i] jl i show "(c # cs) ! j \<noteq> 10" by auto
  qed
  moreover from Cons.prems have "nl_ok (Some c) cs" by simp
  then have "re_sub_at [Plus is_space, One is_nl] r (Some c) cs = cs" by (rule Cons.IH)
  ultimately show ?case by (simp add: step2_None)
qed

subsection \<open>Matches as decompositions\<close>

definition rep_max :: "nat option \<Rightarrow> (nat \<Rightarrow> bool) \<Rightarrow> ustr \<Rightarrow> nat" where
  "rep_max hi P s =
     (case hi of None \<Rightarrow> length (takeWhile P s) | Some h \<Rightarrow> min h (length (takeWhile P s)))"

fun rmatches :: "atom list \<Rightarrow> nat option \<Rightarrow> ustr \<Rightarrow> nat \<Rightarrow> bool" where
  "rmatches [] prev s n \<longleftrightarrow> n = 0"
| "rmatches (LookBehind P # as) prev s n \<longleftrightarrow> (\<exists>c. prev = Some c \<and> P c) \<and> rmatches as prev s n"
| "rmatches (LookAhead P # as) prev s n \<longleftrightarrow> s \<noteq> [] \<and> P (hd s) \<and> rmatches as prev s n"
| "rmatches (AtStart # as) prev s n \<longleftrightarrow> prev = None \<and> rmatches as prev s n"
| "rmatches (AtEnd # as) prev s n \<longleftrightarrow> (s = [] \<or> s = [10]) \<and> rmatches as prev s n"
| "rmatches (Rep P lo hi cap # as) prev s n \<longleftrightarrow>
     (\<exists>j. lo \<le> j \<and> j \<le> rep_max hi P s \<and> j \<le> n \<and>
          rmatches as (prev_after prev (take j s)) (drop j s) (n - j))"

lemma rmatch_sound: "rmatch pat prev s = Some (n, gs) \<Longrightarrow> rmatches pat prev s n"
proof (induction pat arbitrary: prev s n gs)
  case Nil
  then show ?case by simp
next
  case (Cons a as)
  show ?case
  proof (cases a)
    case (Rep P lo hi cap)
    from Cons.prems Rep obtain j m hs where
      j: "rmatch as (prev_after prev (take j s)) (drop j s) = Some (m, hs)" "n = j + m"
      "lo \<le> j" "j \<le> rep_max hi P s"
      by (auto simp: rmatch.simps(6) try_down_Some rep_max_def split: option.splits)
    from Cons.IH[OF j(1)] j(2,3,4) Rep show ?thesis by auto
  next
    case (LookBehind P)
    with Cons.prems have "rmatch as prev s = Some (n, gs)" "\<exists>c. prev = Some c \<and> P c"
      by (auto split: option.splits if_splits)
    with Cons.IH LookBehind show ?thesis by auto
  next
    case (LookAhead P)
    with Cons.prems have "rmatch as prev s = Some (n, gs)" "s \<noteq> [] \<and> P (hd s)"
      by (auto split: list.splits if_splits)
    with Cons.IH LookAhead show ?thesis by auto
  next
    case AtStart
    with Cons.prems have "rmatch as prev s = Some (n, gs)" "prev = None"
      by (auto split: if_splits)
    with Cons.IH AtStart show ?thesis by auto
  next
    case AtEnd
    with Cons.prems have "rmatch as prev s = Some (n, gs)" "s = [] \<or> s = [10]"
      by (auto split: if_splits)
    with Cons.IH AtEnd show ?thesis by auto
  qed
qed

lemma rmatch_complete: "rmatches pat prev s n \<Longrightarrow> rmatch pat prev s \<noteq> None"
proof (induction pat arbitrary: prev s n)
  case Nil
  then show ?case by simp
next
  case (Cons a as)
  show ?case
  proof (cases a)
    case (Rep P lo hi cap)
    with Cons.prems obtain j where j: "lo \<le> j" "j \<le> rep_max hi P s"
      "rmatches as (prev_after prev (take j s)) (drop j s) (n - j)" by auto
    from Cons.IH[OF j(3)] obtain m hs where
      r: "rmatch as (prev_after prev (take j s)) (drop j s) = Some (m, hs)" by auto
    let ?f = "\<lambda>j. case rmatch as (prev_after prev (take j s)) (drop j s) of
              None \<Rightarrow> None
            | Some (n, gs) \<Rightarrow> Some (j + n, (if cap then [take j s] else []) @ gs)"
    have "?f j \<noteq> None" using r by simp
    have "\<not> (\<forall>i. lo \<le> i \<and> i \<le> rep_max hi P s \<longrightarrow> ?f i = None)"
    proof
      assume "\<forall>i. lo \<le> i \<and> i \<le> rep_max hi P s \<longrightarrow> ?f i = None"
      then have "lo \<le> j \<and> j \<le> rep_max hi P s \<longrightarrow> ?f j = None" by (rule spec)
      with j(1,2) have "?f j = None" by (rule_tac mp) simp_all
      with \<open>?f j \<noteq> None\<close> show False by (rule_tac notE)
    qed
    then have "try_down ?f lo (rep_max hi P s) \<noteq> None"
      unfolding try_down_None .
    then show ?thesis by (simp add: Rep rmatch.simps(6) rep_max_def)
  next
    case (LookBehind P)
    with Cons show ?thesis by auto
  next
    case (LookAhead P)
    with Cons show ?thesis by (cases s) auto
  next
    case AtStart
    with Cons show ?thesis by auto
  next
    case AtEnd
    with Cons show ?thesis by auto
  qed
qed

fun captures :: "atom \<Rightarrow> bool" where
  "captures (Rep P lo hi cap) = cap"
| "captures (LookBehind P) = False"
| "captures (LookAhead P) = False"
| "captures AtStart = False"
| "captures AtEnd = False"

lemma rmatch_no_groups:
  "rmatch pat prev s = Some (n, gs) \<Longrightarrow> \<forall>a\<in>set pat. \<not> captures a \<Longrightarrow> gs = []"
proof (induction pat arbitrary: prev s n gs)
  case Nil
  then show ?case by simp
next
  case (Cons a as)
  show ?case
  proof (cases a)
    case (Rep P lo hi cap)
    from Cons.prems Rep obtain j m hs where
      j: "rmatch as (prev_after prev (take j s)) (drop j s) = Some (m, hs)"
      "gs = (if cap then [take j s] else []) @ hs"
      by (auto simp: rmatch.simps(6) try_down_Some split: option.splits)
    from Cons.IH[OF j(1)] Cons.prems(2) have "hs = []" by simp
    with j(2) Cons.prems(2) Rep show ?thesis by simp
  next
    case (LookBehind P)
    with Cons.prems have "rmatch as prev s = Some (n, gs)"
      by (auto split: option.splits if_splits)
    with Cons.IH Cons.prems(2) show ?thesis by auto
  next
    case (LookAhead P)
    with Cons.prems have "rmatch as prev s = Some (n, gs)"
      by (auto split: list.splits if_splits)
    with Cons.IH Cons.prems(2) show ?thesis by auto
  next
    case AtStart
    with Cons.prems have "rmatch as prev s = Some (n, gs)"
      by (auto split: if_splits)
    with Cons.IH Cons.prems(2) show ?thesis by auto
  next
    case AtEnd
    with Cons.prems have "rmatch as prev s = Some (n, gs)"
      by (auto split: if_splits)
    with Cons.IH Cons.prems(2) show ?thesis by auto
  qed
qed

section \<open>Idempotence of \<^verbatim>\<open>norm_space\<close>\<close>

text \<open>
  Claim C10. \<^verbatim>\<open>norm_space\<close> is idempotent: for every string \<open>s\<close>,
  \<open>norm_space (norm_space s) = norm_space s\<close>. After one application every run of
  \<^verbatim>\<open>[ \t\u00A0\u200B]\<close> is a single space (\<open>hws_ok\<close>), no whitespace precedes a
  line feed (\<open>nl_ok\<close>) and the ends are stripped, so each of the three steps of a
  second application returns its argument.
\<close>

theorem norm_space_idempotent: "norm_space (norm_space s) = norm_space s"
proof (cases "s = []")
  case True
  then show ?thesis by (simp add: norm_space_def)
next
  case False
  define a where "a = re_sub [Plus is_hws] (\<lambda>gs. [32]) s"
  define b where "b = re_sub [Plus is_space, One is_nl] (\<lambda>gs. [10]) a"
  define t where "t = strip b"
  have t: "norm_space s = t" using False by (simp add: norm_space_def a_def b_def t_def)
  have "hws_ok None a" unfolding a_def re_sub_def by (simp add: re_sub_runs hws_ok_step1)
  then have "hws_ok None b" unfolding b_def re_sub_def by (rule hws_ok_step2)
  then have ht: "hws_ok None t" unfolding t_def by (rule hws_ok_strip)
  have "nl_ok None b" unfolding b_def re_sub_def by (rule nl_ok_step2) simp
  then have nt: "nl_ok None t" unfolding t_def by (rule nl_ok_strip)
  have 1: "re_sub [Plus is_hws] (\<lambda>gs. [32]) t = t"
    unfolding re_sub_def using ht by (simp add: re_sub_runs hws_ok_fix)
  have 2: "re_sub [Plus is_space, One is_nl] (\<lambda>gs. [10]) t = t"
    unfolding re_sub_def using nt by (rule nl_ok_fix)
  have 3: "strip t = t" unfolding t_def by (rule strip_idem)
  show ?thesis unfolding t by (simp add: norm_space_def 1 2 3)
qed

section \<open>The file-name slug\<close>

lemma set_dropWhile_subset: "set (dropWhile P cs) \<subseteq> set cs"
  by (meson set_dropWhileD subsetI)

lemma set_sub_runs_plus:
  "set (sub_runs P (Suc 0) r s) \<subseteq> set r \<union> {c \<in> set s. \<not> P c}"
proof (induction P "Suc 0" r s rule: sub_runs.induct)
  case (1 P r)
  then show ?case by simp
next
  case (2 P r c cs)
  with set_dropWhile_subset[of P cs] show ?case by auto
qed

lemma set_sub_runs_subset:
  "set r \<subseteq> {c. P c} \<Longrightarrow> set (sub_runs P lo r s) \<subseteq> set r \<union> set s"
proof (induction P lo r s rule: sub_runs.induct)
  case (1 P lo r)
  then show ?case by simp
next
  case (2 P lo r c cs)
  with set_dropWhile_subset[of P cs] show ?case by auto
qed

definition no_uu :: "ustr \<Rightarrow> bool" where
  "no_uu t = successively (\<lambda>a b. \<not> (a = 95 \<and> b = (95::nat))) t"

lemma no_uu_sub_runs_aux:
  "no_uu (sub_runs (\<lambda>c. c = 95) 2 [95] s) \<and>
   (s = [] \<or> hd s \<noteq> 95 \<longrightarrow>
      sub_runs (\<lambda>c. c = 95) 2 [95] s = [] \<or> hd (sub_runs (\<lambda>c. c = 95) 2 [95] s) \<noteq> 95)"
proof (induction "\<lambda>c::nat. c = 95" "2::nat" "[95::nat]" s rule: sub_runs.induct)
  case 1
  then show ?case by (simp add: no_uu_def)
next
  case (2 c cs)
  show ?case
  proof (cases "c = 95 \<and> 2 \<le> Suc (length (takeWhile (\<lambda>c. c = 95) cs))")
    case True
    have "dropWhile (\<lambda>c. c = 95) cs = [] \<or> hd (dropWhile (\<lambda>c. c = 95) cs) \<noteq> 95"
      using hd_dropWhile[of "\<lambda>c. c = 95" cs] by blast
    with 2(1)[OF True] True show ?thesis
      by (auto simp: no_uu_def successively_Cons)
  next
    case False
    note F = this
    show ?thesis
    proof (cases "c = 95")
      case True
      with F have "takeWhile (\<lambda>c. c = 95) cs = []" by (cases "takeWhile (\<lambda>c. c = 95) cs") auto
      then have "cs = [] \<or> hd cs \<noteq> 95" by (cases cs) (auto split: if_splits)
      with 2(2)[OF F] F True show ?thesis
        by (auto simp: no_uu_def successively_Cons)
    next
      case False
      with 2(2)[OF F] F show ?thesis
        by (auto simp: no_uu_def successively_Cons)
    qed
  qed
qed

lemma strip_chars_decomp:
  "s = takeWhile P s @ strip_chars P s @ rev (takeWhile P (rev (dropWhile P s)))"
proof -
  have "dropWhile P s = strip_chars P s @ rev (takeWhile P (rev (dropWhile P s)))"
    unfolding strip_chars_def by (rule rev_dropWhile_rev_prefix)
  then have "takeWhile P s @ dropWhile P s =
      takeWhile P s @ strip_chars P s @ rev (takeWhile P (rev (dropWhile P s)))" by simp
  then show ?thesis by (simp only: takeWhile_dropWhile_id)
qed

lemma strip_chars_last: "strip_chars P s \<noteq> [] \<Longrightarrow> \<not> P (last (strip_chars P s))"
proof -
  assume a: "strip_chars P s \<noteq> []"
  then have ne: "dropWhile P (rev (dropWhile P s)) \<noteq> []" by (simp add: strip_chars_def)
  have "last (strip_chars P s) = hd (dropWhile P (rev (dropWhile P s)))"
    using ne by (simp add: strip_chars_def last_rev)
  with hd_dropWhile[OF ne] show ?thesis by simp
qed

lemma strip_chars_hd: "strip_chars P s \<noteq> [] \<Longrightarrow> \<not> P (hd (strip_chars P s))"
proof -
  assume a: "strip_chars P s \<noteq> []"
  have d: "dropWhile P s = strip_chars P s @ rev (takeWhile P (rev (dropWhile P s)))"
    unfolding strip_chars_def by (rule rev_dropWhile_rev_prefix)
  have ne: "dropWhile P s \<noteq> []"
  proof
    assume "dropWhile P s = []"
    then have "strip_chars P s = []"
      by (simp only: strip_chars_def rev.simps dropWhile.simps)
    with a show False by simp
  qed
  from d a have "hd (dropWhile P s) = hd (strip_chars P s)"
    by (metis hd_append2)
  with hd_dropWhile[OF ne] show ?thesis by simp
qed

lemma set_strip_chars: "set (strip_chars P s) \<subseteq> set s"
  using strip_chars_decomp[of s P] by (metis Un_iff set_append subsetI)

lemma no_uu_strip_chars: "no_uu s \<Longrightarrow> no_uu (strip_chars P s)"
  unfolding no_uu_def using strip_chars_decomp[of s P]
  by (metis successively_append_iff)

lemma no_uu_nth: "no_uu t \<Longrightarrow> Suc i < length t \<Longrightarrow> \<not> (t ! i = 95 \<and> t ! Suc i = 95)"
proof (induction t arbitrary: i)
  case Nil
  then show ?case by simp
next
  case (Cons c cs)
  show ?case
  proof (cases i)
    case 0
    with Cons.prems show ?thesis by (cases cs) (auto simp: no_uu_def)
  next
    case (Suc n)
    from Cons.prems have "no_uu cs" by (cases cs) (auto simp: no_uu_def)
    with Cons.IH[of n] Cons.prems Suc show ?thesis by simp
  qed
qed

section \<open>Whitespace between bopomofo\<close>

text \<open>
  The wording of the claim, by positions: position \<open>i\<close> of \<open>s\<close> lies in a whitespace
  run strictly between two bopomofo characters when \<open>s ! i\<close> is whitespace, some
  position to its left holds a bopomofo character with only whitespace from there to
  \<open>i\<close>, and likewise to its right. \<open>condense_spec\<close> keeps the characters at all other
  positions, in order.
\<close>

definition between_bpmf :: "ustr \<Rightarrow> nat \<Rightarrow> bool" where
  "between_bpmf s i \<longleftrightarrow>
     i < length s \<and> is_space (s ! i) \<and>
     (\<exists>l\<in>{..<i}. is_bpmf (s ! l) \<and> (\<forall>j\<in>{l<..i}. is_space (s ! j))) \<and>
     (\<exists>r\<in>{i<..<length s}. is_bpmf (s ! r) \<and> (\<forall>j\<in>{i..<r}. is_space (s ! j)))"

definition condense_spec :: "ustr \<Rightarrow> ustr" where
  "condense_spec s = map (\<lambda>i. s ! i) (filter (\<lambda>i. \<not> between_bpmf s i) [0..<length s])"

lemma bpmf_not_space: "is_bpmf c \<Longrightarrow> \<not> is_space c"
  by (auto simp: is_bpmf_def is_space_def)

lemma drop_takeWhile_len: "drop (length (takeWhile P s)) s = dropWhile P s"
  by (simp add: dropWhile_eq_drop)

lemma flank_len:
  assumes "j \<le> length (takeWhile is_space s)" "drop j s \<noteq> []" "\<not> is_space (hd (drop j s))"
  shows "j = length (takeWhile is_space s)"
proof (rule ccontr)
  assume "j \<noteq> length (takeWhile is_space s)"
  with assms(1) have lt: "j < length (takeWhile is_space s)" by simp
  then have "is_space (s ! j)" by (rule takeWhile_nth_P)
  moreover from assms(2) have "hd (drop j s) = s ! j" by (simp add: hd_drop_conv_nth)
  ultimately show False using assms(3) by simp
qed

lemma cz_match:
  "rmatch [LookBehind is_bpmf, Plus is_space, LookAhead is_bpmf] prev s =
     (if (\<exists>c. prev = Some c \<and> is_bpmf c) \<and> takeWhile is_space s \<noteq> [] \<and>
         dropWhile is_space s \<noteq> [] \<and> is_bpmf (hd (dropWhile is_space s))
      then Some (length (takeWhile is_space s), []) else None)"
proof -
  let ?pat = "[LookBehind is_bpmf, Plus is_space, LookAhead is_bpmf]"
  let ?k = "length (takeWhile is_space s)"
  let ?c = "(\<exists>c. prev = Some c \<and> is_bpmf c) \<and> takeWhile is_space s \<noteq> [] \<and>
         dropWhile is_space s \<noteq> [] \<and> is_bpmf (hd (dropWhile is_space s))"
  have sound: "rmatch ?pat prev s = Some (n, gs) \<Longrightarrow> ?c \<and> n = ?k \<and> gs = []" for n gs
  proof -
    assume a: "rmatch ?pat prev s = Some (n, gs)"
    then have g: "gs = []" by (rule rmatch_no_groups) simp
    from rmatch_sound[OF a] obtain j where
      j: "\<exists>c. prev = Some c \<and> is_bpmf c" "Suc 0 \<le> j" "j \<le> ?k" "j \<le> n"
        "drop j s \<noteq> []" "is_bpmf (hd (drop j s))" "n - j = 0"
      by (auto simp: rep_max_def)
    have jk: "j = ?k" using j(3,5) bpmf_not_space[OF j(6)] by (rule flank_len)
    with j show ?thesis using g by (auto simp: drop_takeWhile_len)
  qed
  show ?thesis
  proof (cases ?c)
    case True
    then have k1: "Suc 0 \<le> ?k" by (cases "takeWhile is_space s") simp_all
    from True have d: "drop ?k s \<noteq> []" "is_bpmf (hd (drop ?k s))"
      by (simp_all only: drop_takeWhile_len) simp_all
    have "rmatches [LookAhead is_bpmf] (prev_after prev (take ?k s)) (drop ?k s) (?k - ?k)"
      using d by simp
    with k1 have "rmatches [Plus is_space, LookAhead is_bpmf] prev s ?k"
      unfolding rmatches.simps(6) rep_max_def by (intro exI[of _ ?k]) simp
    with True have "rmatches ?pat prev s ?k" by simp
    then have "rmatch ?pat prev s \<noteq> None" by (rule rmatch_complete)
    then obtain n gs where "rmatch ?pat prev s = Some (n, gs)" by auto
    with sound[OF this] True show ?thesis by simp
  next
    case False
    have "rmatch ?pat prev s = None"
    proof (cases "rmatch ?pat prev s")
      case None
      then show ?thesis .
    next
      case (Some r)
      then obtain n gs where "rmatch ?pat prev s = Some (n, gs)" by (cases r) auto
      from sound[OF this] False show ?thesis by simp
    qed
    with False show ?thesis by simp
  qed
qed


definition prev_at :: "ustr \<Rightarrow> nat \<Rightarrow> nat option" where
  "prev_at s p = (if p = 0 then None else Some (s ! (p - 1)))"

lemma takeWhile_drop_index:
  assumes "p \<le> length s"
  shows "(\<forall>i<length (takeWhile P (drop p s)). P (s ! (p + i))) \<and>
         p + length (takeWhile P (drop p s)) \<le> length s \<and>
         (p + length (takeWhile P (drop p s)) < length s \<longrightarrow>
            \<not> P (s ! (p + length (takeWhile P (drop p s)))))"
proof (intro conjI allI impI)
  fix i assume "i < length (takeWhile P (drop p s))"
  then have "P (drop p s ! i)" by (rule takeWhile_nth_P)
  with assms show "P (s ! (p + i))" by simp
next
  show "p + length (takeWhile P (drop p s)) \<le> length s"
    using length_takeWhile_le[of P "drop p s"] assms by simp
next
  assume "p + length (takeWhile P (drop p s)) < length s"
  then have "length (takeWhile P (drop p s)) < length (drop p s)" by simp
  then have "\<not> P (drop p s ! length (takeWhile P (drop p s)))" by (rule nth_length_takeWhile)
  with assms show "\<not> P (s ! (p + length (takeWhile P (drop p s))))" by simp
qed

lemma takeWhile_drop_len:
  assumes "p \<le> r" "r < length s" "\<forall>j. p \<le> j \<and> j < r \<longrightarrow> P (s ! j)" "\<not> P (s ! r)"
  shows "length (takeWhile P (drop p s)) = r - p"
proof -
  have a: "r - p \<le> length (takeWhile P (drop p s))"
  proof (rule length_takeWhile_less_P_nth)
    fix i assume "i < r - p"
    with assms show "P (drop p s ! i)" by simp
  next
    show "r - p \<le> length (drop p s)" using assms by simp
  qed
  have b: "length (takeWhile P (drop p s)) \<le> r - p"
  proof (rule ccontr)
    assume "\<not> length (takeWhile P (drop p s)) \<le> r - p"
    then have "r - p < length (takeWhile P (drop p s))" by simp
    then have "P (drop p s ! (r - p))" by (rule takeWhile_nth_P)
    with assms show False by simp
  qed
  from a b show ?thesis by simp
qed

lemma cz_sub_nomatch:
  "\<not> ((\<exists>c. prev = Some c \<and> is_bpmf c) \<and> takeWhile is_space s \<noteq> [] \<and>
         dropWhile is_space s \<noteq> [] \<and> is_bpmf (hd (dropWhile is_space s))) \<Longrightarrow>
   re_sub_at [LookBehind is_bpmf, Plus is_space, LookAhead is_bpmf] r prev s =
     (case s of [] \<Rightarrow> []
      | c # cs \<Rightarrow> c # re_sub_at [LookBehind is_bpmf, Plus is_space, LookAhead is_bpmf] r (Some c) cs)"
  by (subst re_sub_at.simps) (simp only: cz_match if_False option.case)

lemma cz_sub_match:
  assumes "(\<exists>c. prev = Some c \<and> is_bpmf c) \<and> takeWhile is_space s \<noteq> [] \<and>
         dropWhile is_space s \<noteq> [] \<and> is_bpmf (hd (dropWhile is_space s))"
  shows "re_sub_at [LookBehind is_bpmf, Plus is_space, LookAhead is_bpmf] r prev s =
     r [takeWhile is_space s] @
       re_sub_at [LookBehind is_bpmf, Plus is_space, LookAhead is_bpmf] r
              (Some (last (takeWhile is_space s))) (dropWhile is_space s)"
proof -
  let ?k = "length (takeWhile is_space s)"
  have m: "rmatch [LookBehind is_bpmf, Plus is_space, LookAhead is_bpmf] prev s = Some (?k, [])"
    by (subst cz_match, subst if_P, rule assms, rule refl)
  have k: "?k \<noteq> 0" using assms by simp
  have t: "take ?k s = takeWhile is_space s" by (rule takeWhile_eq_take[symmetric])
  have pa: "prev_after prev (take ?k s) = Some (last (takeWhile is_space s))"
    using assms by (simp add: t prev_after_def)
  show ?thesis
    by (subst re_sub_at.simps)
      (simp only: m option.case prod.case k if_False pa pa[unfolded t] drop_takeWhile_len t)
qed


lemma between_bpmf_step:
  assumes "between_bpmf s (Suc p)" "is_space (s ! p)"
  shows "between_bpmf s p"
proof -
  from assms(1) obtain l r where
    l: "l < Suc p" "is_bpmf (s ! l)" "\<forall>j\<in>{l<..Suc p}. is_space (s ! j)" and
    r: "Suc p < r" "r < length s" "is_bpmf (s ! r)" "\<forall>j\<in>{Suc p..<r}. is_space (s ! j)"
    unfolding between_bpmf_def by auto
  from l(2) assms(2) have "l \<noteq> p" using bpmf_not_space by auto
  with l(1) have lp: "l < p" by simp
  have "\<forall>j\<in>{l<..p}. is_space (s ! j)" using l(3) by auto
  moreover have "\<forall>j\<in>{p..<r}. is_space (s ! j)"
  proof
    fix j assume "j \<in> {p..<r}"
    then have "j = p \<or> j \<in> {Suc p..<r}" by auto
    with assms(2) r(4) show "is_space (s ! j)" by auto
  qed
  ultimately show ?thesis
    unfolding between_bpmf_def using lp l(2) r(1,2,3) assms(2) by auto
qed

lemma condense_from:
  assumes "p \<le> length s" "0 < p \<and> is_space (s ! (p - 1)) \<longrightarrow> \<not> between_bpmf s p"
  shows "re_sub_at [LookBehind is_bpmf, Plus is_space, LookAhead is_bpmf] (\<lambda>gs. [])
           (prev_at s p) (drop p s) =
         map (\<lambda>i. s ! i) (filter (\<lambda>i. \<not> between_bpmf s i) [p..<length s])"
  using assms
proof (induction "length s - p" arbitrary: p rule: less_induct)
  case less
  let ?pat = "[LookBehind is_bpmf, Plus is_space, LookAhead is_bpmf]"
  let ?s' = "drop p s"
  let ?k = "length (takeWhile is_space ?s')"
  let ?cond = "(\<exists>c. prev_at s p = Some c \<and> is_bpmf c) \<and> takeWhile is_space ?s' \<noteq> [] \<and>
         dropWhile is_space ?s' \<noteq> [] \<and> is_bpmf (hd (dropWhile is_space ?s'))"
  note tw = takeWhile_drop_index[OF less.prems(1), of is_space]
  show ?case
  proof (cases "p = length s")
    case True
    then show ?thesis by (simp add: cz_sub_nomatch)
  next
    case False
    with less.prems(1) have pl: "p < length s" by simp
    have cons: "?s' = s ! p # drop (Suc p) s" using pl by (simp add: Cons_nth_drop_Suc)
    show ?thesis
    proof (cases ?cond)
      case True
      then have p0: "0 < p" and bl: "is_bpmf (s ! (p - 1))"
        by (auto simp: prev_at_def split: if_splits)
      from True have k1: "0 < ?k" by simp
      have dd: "dropWhile is_space ?s' = drop (p + ?k) s"
        by (subst drop_takeWhile_len[of is_space ?s', symmetric]) (simp add: add.commute)
      from True have "dropWhile is_space ?s' \<noteq> []" by blast
      then have dne: "drop (p + ?k) s \<noteq> []" unfolding dd .
      then have pk: "p + ?k < length s" by simp
      have hdr: "hd (dropWhile is_space ?s') = s ! (p + ?k)"
        unfolding dd using pk by (rule hd_drop_conv_nth)
      with True have br: "is_bpmf (s ! (p + ?k))" by simp
      have ws: "\<forall>i<?k. is_space (s ! (p + i))" using tw by blast
      have del: "between_bpmf s i" if "p \<le> i" "i < p + ?k" for i
      proof -
        have a: "is_space (s ! j)" if "p \<le> j" "j < p + ?k" for j
        proof -
          from that have "j - p < ?k" by simp
          with ws have "is_space (s ! (p + (j - p)))" by blast
          with that show ?thesis by simp
        qed
        have "\<forall>j\<in>{p - 1<..i}. is_space (s ! j)" using a that p0 by auto
        moreover have "\<forall>j\<in>{i..<p + ?k}. is_space (s ! j)" using a that by auto
        ultimately show ?thesis
          unfolding between_bpmf_def using that pk bl br p0 a[of i]
          by (intro conjI bexI[of _ "p - 1"] bexI[of _ "p + ?k"]) auto
      qed
      have lastc: "last (takeWhile is_space ?s') = s ! (p + ?k - 1)"
      proof -
        have "takeWhile is_space ?s' = take ?k ?s'" by (rule takeWhile_eq_take)
        then have "last (takeWhile is_space ?s') = last (take ?k ?s')" by simp
        also have "\<dots> = ?s' ! (?k - 1)"
          using k1 length_takeWhile_le[of is_space ?s']
          by (subst last_conv_nth) (auto simp: min_def)
        also have "\<dots> = s ! (p + (?k - 1))" using less.prems(1) by simp
        also have "p + (?k - 1) = p + ?k - 1" using k1 by linarith
        finally show ?thesis .
      qed
      have pa: "Some (last (takeWhile is_space ?s')) = prev_at s (p + ?k)"
        using k1 by (simp add: prev_at_def lastc)
      have inv: "0 < p + ?k \<and> is_space (s ! (p + ?k - 1)) \<longrightarrow> \<not> between_bpmf s (p + ?k)"
        using br bpmf_not_space unfolding between_bpmf_def by blast
      have ih: "re_sub_at ?pat (\<lambda>gs. []) (prev_at s (p + ?k)) (drop (p + ?k) s) =
          map (\<lambda>i. s ! i) (filter (\<lambda>i. \<not> between_bpmf s i) [p + ?k..<length s])"
      proof (rule less.hyps)
        show "length s - (p + ?k) < length s - p" using pk k1 by linarith
        show "p + ?k \<le> length s" using pk by simp
        show "0 < p + ?k \<and> is_space (s ! (p + ?k - 1)) \<longrightarrow> \<not> between_bpmf s (p + ?k)"
          by (rule inv)
      qed
      have split: "[p..<length s] = [p..<p + ?k] @ [p + ?k..<length s]"
      proof -
        have "[p..<p + ?k + (length s - (p + ?k))] =
            [p..<p + ?k] @ [p + ?k..<p + ?k + (length s - (p + ?k))]"
          by (rule upt_add_eq_append) simp
        moreover have "p + ?k + (length s - (p + ?k)) = length s" using pk by linarith
        ultimately show ?thesis by simp
      qed
      have "filter (\<lambda>i. \<not> between_bpmf s i) [p..<p + ?k] = []"
        using del by (simp add: filter_empty_conv)
      then have rhs: "map (\<lambda>i. s ! i) (filter (\<lambda>i. \<not> between_bpmf s i) [p..<length s]) =
          map (\<lambda>i. s ! i) (filter (\<lambda>i. \<not> between_bpmf s i) [p + ?k..<length s])"
        by (subst split) simp
      show ?thesis
        by (subst cz_sub_match[OF True]) (simp only: pa dd ih rhs append_Nil)
    next
      case False
      have nb: "\<not> between_bpmf s p"
      proof
        assume b: "between_bpmf s p"
        then obtain l r where
          l: "l < p" "is_bpmf (s ! l)" "\<forall>j\<in>{l<..p}. is_space (s ! j)" and
          r: "p < r" "r < length s" "is_bpmf (s ! r)" "\<forall>j\<in>{p..<r}. is_space (s ! j)"
          unfolding between_bpmf_def by auto
        show False
        proof (cases "l = p - 1")
          case True
          with l have pv: "\<exists>c. prev_at s p = Some c \<and> is_bpmf c" by (simp add: prev_at_def)
          have len: "?k = r - p"
            using r bpmf_not_space[OF r(3)] by (intro takeWhile_drop_len) auto
          with r(1) have "takeWhile is_space ?s' \<noteq> []" by auto
          moreover have "dropWhile is_space ?s' = drop r s"
            using len r(1)
            by (subst drop_takeWhile_len[of is_space ?s', symmetric]) (simp add: add.commute)
          moreover have "drop r s \<noteq> []" "hd (drop r s) = s ! r"
            using r(2) by (simp_all add: hd_drop_conv_nth)
          ultimately have ?cond using pv r(3) by simp
          with False show False by simp
        next
          case False
          with l(1) have "l < p - 1" "0 < p" by simp_all
          with l(3) have "is_space (s ! (p - 1))" by auto
          with less.prems(2) \<open>0 < p\<close> b show False by simp
        qed
      qed
      have inv: "0 < Suc p \<and> is_space (s ! (Suc p - 1)) \<longrightarrow> \<not> between_bpmf s (Suc p)"
        using nb between_bpmf_step[of s p] by auto
      have ih: "re_sub_at ?pat (\<lambda>gs. []) (prev_at s (Suc p)) (drop (Suc p) s) =
          map (\<lambda>i. s ! i) (filter (\<lambda>i. \<not> between_bpmf s i) [Suc p..<length s])"
      proof (rule less.hyps)
        show "length s - Suc p < length s - p" using pl by linarith
        show "Suc p \<le> length s" using pl by simp
        show "0 < Suc p \<and> is_space (s ! (Suc p - 1)) \<longrightarrow> \<not> between_bpmf s (Suc p)"
          by (rule inv)
      qed
      have pa: "Some (s ! p) = prev_at s (Suc p)" by (simp add: prev_at_def)
      have rhs: "map (\<lambda>i. s ! i) (filter (\<lambda>i. \<not> between_bpmf s i) [p..<length s]) =
          s ! p # map (\<lambda>i. s ! i) (filter (\<lambda>i. \<not> between_bpmf s i) [Suc p..<length s])"
        using pl nb by (simp add: upt_conv_Cons)
      show ?thesis
        by (subst cz_sub_nomatch[OF False]) (simp only: cons list.case pa ih rhs)
    qed
  qed
qed

text \<open>
  Claim C5. \<^verbatim>\<open>condense_zhuyin\<close> removes exactly the whitespace runs that lie strictly
  between two bopomofo characters: for every string, the result consists of the
  characters at the positions that are not in such a run, in their order. So every such
  run is deleted entirely and every other character, whitespace not flanked on both sides
  by bopomofo included, is preserved.
\<close>

theorem condense_zhuyin_spec: "condense_zhuyin s = condense_spec s"
proof (cases "s = []")
  case True
  then show ?thesis by (simp add: condense_zhuyin_def condense_spec_def)
next
  case False
  have "re_sub_at [LookBehind is_bpmf, Plus is_space, LookAhead is_bpmf] (\<lambda>gs. [])
           (prev_at s 0) (drop 0 s) =
         map (\<lambda>i. s ! i) (filter (\<lambda>i. \<not> between_bpmf s i) [0..<length s])"
    by (rule condense_from) simp_all
  with False show ?thesis
    by (simp add: condense_zhuyin_def condense_spec_def re_sub_def prev_at_def)
qed

theorem condense_zhuyin_spec_witness:
  "condense_zhuyin [12549, 32, 12550, 32, 97] = [12549, 12550, 32, 97]"
proof -
  let ?s = "[12549, 32, 12550, 32, 97::nat]"
  have b: "is_bpmf 12549" "is_bpmf 12550" "\<not> is_bpmf 32" "\<not> is_bpmf 97"
    "is_space 32" "\<not> is_space 12549" "\<not> is_space 12550" "\<not> is_space 97"
    by (simp_all add: is_bpmf_def is_space_def)
  have n0: "\<not> between_bpmf ?s 0" by (simp add: between_bpmf_def b)
  have y1: "between_bpmf ?s 1"
    unfolding between_bpmf_def
    by (intro conjI bexI[of _ 0] bexI[of _ 2]) (auto simp: b less_Suc_eq)
  have n2: "\<not> between_bpmf ?s 2" by (simp add: between_bpmf_def b)
  have r4: "r = 4" if "3 < r" "r < 5" for r :: nat using that by arith
  have n3: "\<not> between_bpmf ?s 3"
    unfolding between_bpmf_def using b by (auto dest!: r4)
  have n4: "\<not> between_bpmf ?s 4" by (simp add: between_bpmf_def b)
  have u: "[0..<length ?s] = [0, 1, 2, 3, 4]" by (simp add: upt_rec)
  have "condense_spec ?s = [12549, 12550, 32, 97]"
    unfolding condense_spec_def u using n0 y1 n2 n3 n4 by simp
  with condense_zhuyin_spec[of ?s] show ?thesis by simp
qed

section \<open>Line breaks inside CJK text\<close>

text \<open>
  The wording of the claim, by positions. Position \<open>i\<close> of \<open>s\<close> is \<open>wrapped\<close> when it
  lies in a whitespace run that contains a line feed, directly follows a CJK character
  or \<^verbatim>\<open>]\<close> and is directly followed by a CJK character or an opening quote or
  bracket. \<open>wrap_spec\<close> puts one fullwidth comma at the first position of each such run,
  nothing at its other positions, and keeps every other character. \<open>collapse_spec x\<close>
  drops each \<open>x\<close> that is directly followed by another \<open>x\<close>, so that a run of two or
  more becomes a single one.
\<close>

definition wrapped :: "ustr \<Rightarrow> nat \<Rightarrow> bool" where
  "wrapped s i \<longleftrightarrow>
     i < length s \<and> is_space (s ! i) \<and>
     (\<exists>l\<in>{..<i}. cjk_or_close (s ! l) \<and> (\<forall>j\<in>{l<..i}. is_space (s ! j)) \<and>
        (\<exists>r\<in>{i<..<length s}. cjk_or_open (s ! r) \<and> (\<forall>j\<in>{i..<r}. is_space (s ! j)) \<and>
           (\<exists>m\<in>{l<..<r}. s ! m = 10)))"

definition wrap_spec :: "ustr \<Rightarrow> ustr" where
  "wrap_spec s =
     concat (map (\<lambda>i. if wrapped s i then (if 0 < i \<and> wrapped s (i - 1) then [] else [65292])
                       else [s ! i]) [0..<length s])"

definition collapse_spec :: "nat \<Rightarrow> ustr \<Rightarrow> ustr" where
  "collapse_spec x t =
     map (\<lambda>i. t ! i)
       (filter (\<lambda>i. \<not> (t ! i = x \<and> Suc i < length t \<and> t ! Suc i = x)) [0..<length t])"

lemma close_not_space: "cjk_or_close c \<Longrightarrow> \<not> is_space c"
  by (auto simp: cjk_or_close_def is_cjk_def is_space_def)

lemma open_not_space: "cjk_or_open c \<Longrightarrow> \<not> is_space c"
  by (auto simp: cjk_or_open_def is_cjk_def is_space_def)

lemma takeWhile_le_mono:
  assumes "\<And>c. Q c \<Longrightarrow> P c" "a \<le> length (takeWhile P s)" "b \<le> length (takeWhile Q (drop a s))"
  shows "a + b \<le> length (takeWhile P s)"
proof (rule length_takeWhile_less_P_nth)
  have al: "a \<le> length s" using assms(2) length_takeWhile_le[of P s] by linarith
  show "a + b \<le> length s"
    using assms(3) length_takeWhile_le[of Q "drop a s"] al by simp
  fix i assume i: "i < a + b"
  show "P (s ! i)"
  proof (cases "i < a")
    case True
    with assms(2) have "i < length (takeWhile P s)" by simp
    then show ?thesis by (rule takeWhile_nth_P)
  next
    case False
    with i assms(3) have "i - a < length (takeWhile Q (drop a s))" by simp
    then have "Q (drop a s ! (i - a))" by (rule takeWhile_nth_P)
    with al False have "Q (s ! i)" by simp
    then show ?thesis by (rule assms(1))
  qed
qed

lemma nl_is_space: "is_nl c \<Longrightarrow> is_space c"
  by (simp add: is_nl_def)

lemma nc_match:
  "rmatch [LookBehind cjk_or_close, Star is_space, Plus is_nl, Star is_space,
           LookAhead cjk_or_open] prev s =
     (if (\<exists>c. prev = Some c \<and> cjk_or_close c) \<and> 10 \<in> set (takeWhile is_space s) \<and>
         dropWhile is_space s \<noteq> [] \<and> cjk_or_open (hd (dropWhile is_space s))
      then Some (length (takeWhile is_space s), []) else None)"
proof -
  let ?pat = "[LookBehind cjk_or_close, Star is_space, Plus is_nl, Star is_space,
           LookAhead cjk_or_open]"
  let ?k = "length (takeWhile is_space s)"
  let ?c = "(\<exists>c. prev = Some c \<and> cjk_or_close c) \<and> 10 \<in> set (takeWhile is_space s) \<and>
         dropWhile is_space s \<noteq> [] \<and> cjk_or_open (hd (dropWhile is_space s))"
  have sound: "rmatch ?pat prev s = Some (n, gs) \<Longrightarrow> ?c \<and> n = ?k \<and> gs = []" for n gs
  proof -
    assume a: "rmatch ?pat prev s = Some (n, gs)"
    then have g: "gs = []" by (rule rmatch_no_groups) simp
    from rmatch_sound[OF a] obtain j1 j2 j3 where
      j0: "\<exists>c. prev = Some c \<and> cjk_or_close c"
        "j1 \<le> ?k" "Suc 0 \<le> j2" "j2 \<le> length (takeWhile is_nl (drop j1 s))"
        "j3 \<le> length (takeWhile is_space (drop j2 (drop j1 s)))"
        "drop j3 (drop j2 (drop j1 s)) \<noteq> []" "cjk_or_open (hd (drop j3 (drop j2 (drop j1 s))))"
        "n - j1 - j2 - j3 = 0" "j1 \<le> n" "j2 \<le> n - j1" "j3 \<le> n - j1 - j2"
      by (auto simp del: drop_drop simp: rep_max_def)
    have dd2: "drop j2 (drop j1 s) = drop (j1 + j2) s" by (simp add: add.commute)
    have dd3: "drop j3 (drop j2 (drop j1 s)) = drop (j1 + j2 + j3) s"
      by (simp add: ac_simps)
    have nsum: "n = j1 + j2 + j3" using j0(8,9,10,11) by linarith
    note j = j0(1,2,3,4) j0(5)[unfolded dd2] j0(6)[unfolded dd3] j0(7)[unfolded dd3] nsum
    have a12: "j1 + j2 \<le> ?k" using nl_is_space j(2,4) by (rule takeWhile_le_mono)
    have a123: "j1 + j2 + j3 \<le> ?k" using _ a12 j(5) by (rule takeWhile_le_mono)
    have nk: "j1 + j2 + j3 = ?k"
      using a123 j(6) open_not_space[OF j(7)] by (rule flank_len)
    have "0 < length (takeWhile is_nl (drop j1 s))" using j(3,4) by linarith
    then have "is_nl (drop j1 s ! 0)" by (rule takeWhile_nth_P)
    moreover have j1l: "j1 < ?k" using a12 j(3) by simp
    then have "j1 \<le> length s" using length_takeWhile_le[of is_space s] by linarith
    ultimately have "s ! j1 = 10" by (simp add: is_nl_def)
    with j1l have "10 \<in> set (takeWhile is_space s)"
      by (metis nth_mem takeWhile_nth)
    with j nk g show ?thesis by (auto simp: drop_takeWhile_len)
  qed
  show ?thesis
  proof (cases ?c)
    case True
    then obtain m where m: "m < ?k" "takeWhile is_space s ! m = 10"
      by (auto simp: in_set_conv_nth)
    then have sm: "s ! m = 10" by (simp add: takeWhile_nth)
    have ml: "m < length s" using m(1) length_takeWhile_le[of is_space s] by linarith
    from True have d: "drop ?k s \<noteq> []" "cjk_or_open (hd (drop ?k s))"
      by (simp_all only: drop_takeWhile_len) simp_all
    have e: "m + Suc 0 + (?k - Suc m) = ?k" using m(1) by simp
    have "?k - Suc m + (Suc 0 + m) = ?k" using m(1) by linarith
    then have dk: "drop (?k - Suc m) (drop (Suc 0) (drop m s)) = drop ?k s"
      by (simp only: drop_drop)
    have "rmatches [LookAhead cjk_or_open]
        (prev_after (prev_after (prev_after prev (take m s)) (take (Suc 0) (drop m s)))
           (take (?k - Suc m) (drop (Suc 0) (drop m s))))
        (drop (?k - Suc m) (drop (Suc 0) (drop m s))) 0"
      unfolding dk using d by simp
    moreover have "?k - Suc m \<le> length (takeWhile is_space (drop (Suc 0) (drop m s)))"
    proof (rule length_takeWhile_less_P_nth)
      show "?k - Suc m \<le> length (drop (Suc 0) (drop m s))"
        using length_takeWhile_le[of is_space s] by simp
      fix i assume "i < ?k - Suc m"
      then have "Suc (m + i) < ?k" by simp
      then have "is_space (s ! Suc (m + i))" by (rule takeWhile_nth_P)
      moreover have "Suc (m + i) < length s"
        using \<open>Suc (m + i) < ?k\<close> length_takeWhile_le[of is_space s] by linarith
      ultimately show "is_space (drop (Suc 0) (drop m s) ! i)" by simp
    qed
    ultimately have r3: "rmatches [Star is_space, LookAhead cjk_or_open]
        (prev_after (prev_after prev (take m s)) (take (Suc 0) (drop m s)))
        (drop (Suc 0) (drop m s)) (?k - Suc m)"
      unfolding rmatches.simps(6) rep_max_def by (intro exI[of _ "?k - Suc m"]) simp
    have "Suc 0 \<le> length (takeWhile is_nl (drop m s))"
    proof (rule length_takeWhile_less_P_nth)
      show "Suc 0 \<le> length (drop m s)" using ml by simp
      fix i assume "i < Suc 0"
      then show "is_nl (drop m s ! i)" using sm ml by (simp add: is_nl_def)
    qed
    with r3 have r2: "rmatches [Plus is_nl, Star is_space, LookAhead cjk_or_open]
        (prev_after prev (take m s)) (drop m s) (?k - m)"
      unfolding rmatches.simps(6)[of is_nl] rep_max_def using m(1)
      by (intro exI[of _ "Suc 0"]) (simp add: Suc_diff_Suc)
    have "rmatches [Star is_space, Plus is_nl, Star is_space, LookAhead cjk_or_open] prev s ?k"
      unfolding rmatches.simps(6)[of is_space 0] rep_max_def using m(1) r2
      by (intro exI[of _ m]) simp
    with True have "rmatches ?pat prev s ?k" by simp
    then have "rmatch ?pat prev s \<noteq> None" by (rule rmatch_complete)
    then obtain n gs where "rmatch ?pat prev s = Some (n, gs)" by auto
    with sound[OF this] True show ?thesis by simp
  next
    case False
    have "rmatch ?pat prev s = None"
    proof (cases "rmatch ?pat prev s")
      case None
      then show ?thesis .
    next
      case (Some r)
      then obtain n gs where "rmatch ?pat prev s = Some (n, gs)" by (cases r) auto
      from sound[OF this] False show ?thesis by simp
    qed
    with False show ?thesis by simp
  qed
qed


definition wrap_out :: "ustr \<Rightarrow> nat \<Rightarrow> ustr" where
  "wrap_out s i =
     (if wrapped s i then (if 0 < i \<and> wrapped s (i - 1) then [] else [65292]) else [s ! i])"

lemma wrap_spec_alt: "wrap_spec s = concat (map (wrap_out s) [0..<length s])"
  unfolding wrap_spec_def wrap_out_def ..

lemma nc_sub_nomatch:
  "\<not> ((\<exists>c. prev = Some c \<and> cjk_or_close c) \<and> 10 \<in> set (takeWhile is_space s) \<and>
         dropWhile is_space s \<noteq> [] \<and> cjk_or_open (hd (dropWhile is_space s))) \<Longrightarrow>
   re_sub_at [LookBehind cjk_or_close, Star is_space, Plus is_nl, Star is_space,
              LookAhead cjk_or_open] r prev s =
     (case s of [] \<Rightarrow> []
      | c # cs \<Rightarrow> c # re_sub_at [LookBehind cjk_or_close, Star is_space, Plus is_nl,
                                 Star is_space, LookAhead cjk_or_open] r (Some c) cs)"
  by (subst re_sub_at.simps) (simp only: nc_match if_False option.case)

lemma nc_sub_match:
  assumes "(\<exists>c. prev = Some c \<and> cjk_or_close c) \<and> 10 \<in> set (takeWhile is_space s) \<and>
         dropWhile is_space s \<noteq> [] \<and> cjk_or_open (hd (dropWhile is_space s))"
  shows "re_sub_at [LookBehind cjk_or_close, Star is_space, Plus is_nl, Star is_space,
              LookAhead cjk_or_open] r prev s =
     r [takeWhile is_space s] @
       re_sub_at [LookBehind cjk_or_close, Star is_space, Plus is_nl, Star is_space,
              LookAhead cjk_or_open] r
              (Some (last (takeWhile is_space s))) (dropWhile is_space s)"
proof -
  let ?k = "length (takeWhile is_space s)"
  have m: "rmatch [LookBehind cjk_or_close, Star is_space, Plus is_nl, Star is_space,
              LookAhead cjk_or_open] prev s = Some (?k, [])"
    by (subst nc_match, subst if_P, rule assms, rule refl)
  from assms have ne: "takeWhile is_space s \<noteq> []" by auto
  then have k: "?k \<noteq> 0" by simp
  have t: "take ?k s = takeWhile is_space s" by (rule takeWhile_eq_take[symmetric])
  have pa: "prev_after prev (take ?k s) = Some (last (takeWhile is_space s))"
    using ne by (simp add: t prev_after_def)
  show ?thesis
    by (subst re_sub_at.simps)
      (simp only: m option.case prod.case k if_False pa pa[unfolded t] drop_takeWhile_len t)
qed

lemma wrappedI:
  assumes "l < i" "i < r" "r < length s" "cjk_or_close (s ! l)" "cjk_or_open (s ! r)"
    "\<forall>j. l < j \<and> j < r \<longrightarrow> is_space (s ! j)" "l < m" "m < r" "s ! m = 10"
  shows "wrapped s i"
  unfolding wrapped_def
proof (intro conjI)
  show "i < length s" using assms(2,3) by simp
  show "is_space (s ! i)" using assms(1,2,6) by simp
  show "\<exists>l\<in>{..<i}. cjk_or_close (s ! l) \<and> (\<forall>j\<in>{l<..i}. is_space (s ! j)) \<and>
        (\<exists>r\<in>{i<..<length s}. cjk_or_open (s ! r) \<and> (\<forall>j\<in>{i..<r}. is_space (s ! j)) \<and>
           (\<exists>m\<in>{l<..<r}. s ! m = 10))"
  proof (rule bexI[where x = l])
    show "l \<in> {..<i}" using assms(1) by simp
    show "cjk_or_close (s ! l) \<and> (\<forall>j\<in>{l<..i}. is_space (s ! j)) \<and>
        (\<exists>r\<in>{i<..<length s}. cjk_or_open (s ! r) \<and> (\<forall>j\<in>{i..<r}. is_space (s ! j)) \<and>
           (\<exists>m\<in>{l<..<r}. s ! m = 10))"
    proof (intro conjI)
      show "cjk_or_close (s ! l)" by (rule assms(4))
      show "\<forall>j\<in>{l<..i}. is_space (s ! j)" using assms(2,6) by auto
      show "\<exists>r\<in>{i<..<length s}. cjk_or_open (s ! r) \<and> (\<forall>j\<in>{i..<r}. is_space (s ! j)) \<and>
           (\<exists>m\<in>{l<..<r}. s ! m = 10)"
      proof (rule bexI[where x = r])
        show "r \<in> {i<..<length s}" using assms(2,3) by simp
        have "\<exists>m\<in>{l<..<r}. s ! m = 10"
          by (rule bexI[where x = m]) (use assms(7,8,9) in simp_all)
        moreover have "\<forall>j\<in>{i..<r}. is_space (s ! j)" using assms(1,6) by auto
        ultimately show "cjk_or_open (s ! r) \<and> (\<forall>j\<in>{i..<r}. is_space (s ! j)) \<and>
           (\<exists>m\<in>{l<..<r}. s ! m = 10)" using assms(5) by blast
      qed
    qed
  qed
qed

lemma wrappedE:
  assumes "wrapped s i"
  obtains l r m where "l < i" "i < r" "r < length s" "cjk_or_close (s ! l)"
    "cjk_or_open (s ! r)" "\<forall>j. l < j \<and> j < r \<longrightarrow> is_space (s ! j)" "l < m" "m < r" "s ! m = 10"
proof -
  from assms obtain l r m where
    l: "l < i" "cjk_or_close (s ! l)" "\<forall>j\<in>{l<..i}. is_space (s ! j)" and
    r: "i < r" "r < length s" "cjk_or_open (s ! r)" "\<forall>j\<in>{i..<r}. is_space (s ! j)" and
    m: "l < m" "m < r" "s ! m = 10"
    unfolding wrapped_def by auto
  have "\<forall>j. l < j \<and> j < r \<longrightarrow> is_space (s ! j)"
  proof (intro allI impI)
    fix j assume j: "l < j \<and> j < r"
    show "is_space (s ! j)"
    proof (cases "j \<le> i")
      case True
      with j l(3) show ?thesis by simp
    next
      case False
      with j r(4) show ?thesis by simp
    qed
  qed
  with l r m that show ?thesis by blast
qed

lemma wrapped_step:
  assumes "wrapped s (Suc p)" "is_space (s ! p)"
  shows "wrapped s p"
proof -
  from assms(1) obtain l r m where
    w: "l < Suc p" "Suc p < r" "r < length s" "cjk_or_close (s ! l)"
    "cjk_or_open (s ! r)" "\<forall>j. l < j \<and> j < r \<longrightarrow> is_space (s ! j)" "l < m" "m < r" "s ! m = 10"
    by (rule wrappedE)
  from w(4) assms(2) have "l \<noteq> p" using close_not_space by auto
  with w(1) have "l < p" by simp
  moreover from w(2) have "p < r" by simp
  ultimately show ?thesis using w(3-9) by (rule wrappedI)
qed


lemma wrap_from:
  assumes "p \<le> length s" "0 < p \<and> is_space (s ! (p - 1)) \<longrightarrow> \<not> wrapped s p"
  shows "re_sub_at [LookBehind cjk_or_close, Star is_space, Plus is_nl, Star is_space,
              LookAhead cjk_or_open] (\<lambda>gs. [65292]) (prev_at s p) (drop p s) =
         concat (map (wrap_out s) [p..<length s])"
  using assms
proof (induction "length s - p" arbitrary: p rule: less_induct)
  case less
  let ?pat = "[LookBehind cjk_or_close, Star is_space, Plus is_nl, Star is_space,
              LookAhead cjk_or_open]"
  let ?s' = "drop p s"
  let ?k = "length (takeWhile is_space ?s')"
  let ?cond = "(\<exists>c. prev_at s p = Some c \<and> cjk_or_close c) \<and>
         10 \<in> set (takeWhile is_space ?s') \<and>
         dropWhile is_space ?s' \<noteq> [] \<and> cjk_or_open (hd (dropWhile is_space ?s'))"
  note tw = takeWhile_drop_index[OF less.prems(1), of is_space]
  show ?case
  proof (cases "p = length s")
    case True
    then show ?thesis by (simp add: nc_sub_nomatch)
  next
    case False
    with less.prems(1) have pl: "p < length s" by simp
    have cons: "?s' = s ! p # drop (Suc p) s" using pl by (simp add: Cons_nth_drop_Suc)
    show ?thesis
    proof (cases ?cond)
      case True
      then have p0: "0 < p" and bl: "cjk_or_close (s ! (p - 1))"
        by (auto simp: prev_at_def split: if_splits)
      from True have in10: "10 \<in> set (takeWhile is_space ?s')" by blast
      then have ne: "takeWhile is_space ?s' \<noteq> []" by auto
      then have k1: "0 < ?k" by simp
      have dd: "dropWhile is_space ?s' = drop (p + ?k) s"
        by (subst drop_takeWhile_len[of is_space ?s', symmetric]) (simp add: add.commute)
      from True have "dropWhile is_space ?s' \<noteq> []" by blast
      then have dne: "drop (p + ?k) s \<noteq> []" unfolding dd .
      then have pk: "p + ?k < length s" by simp
      have hdr: "hd (dropWhile is_space ?s') = s ! (p + ?k)"
        unfolding dd using pk by (rule hd_drop_conv_nth)
      with True have br: "cjk_or_open (s ! (p + ?k))" by simp
      have ws: "\<forall>j. p - 1 < j \<and> j < p + ?k \<longrightarrow> is_space (s ! j)"
      proof (intro allI impI)
        fix j assume j: "p - 1 < j \<and> j < p + ?k"
        with p0 have "j - p < ?k" by linarith
        with tw have "is_space (s ! (p + (j - p)))" by blast
        moreover from j p0 have "p + (j - p) = j" by linarith
        ultimately show "is_space (s ! j)" by simp
      qed
      from in10 obtain m0 where m0: "m0 < ?k" "takeWhile is_space ?s' ! m0 = 10"
        by (auto simp: in_set_conv_nth)
      then have "?s' ! m0 = 10" by (simp add: takeWhile_nth)
      with less.prems(1) have sm: "s ! (p + m0) = 10" by simp
      have wr: "wrapped s i" if "p \<le> i" "i < p + ?k" for i
      proof (rule wrappedI[of "p - 1" i "p + ?k" s "p + m0"])
        show "p - 1 < i" using that p0 by linarith
        show "i < p + ?k" by (rule that(2))
        show "p + ?k < length s" by (rule pk)
        show "cjk_or_close (s ! (p - 1))" by (rule bl)
        show "cjk_or_open (s ! (p + ?k))" by (rule br)
        show "\<forall>j. p - 1 < j \<and> j < p + ?k \<longrightarrow> is_space (s ! j)" by (rule ws)
        show "p - 1 < p + m0" using p0 by linarith
        show "p + m0 < p + ?k" using m0(1) by linarith
        show "s ! (p + m0) = 10" by (rule sm)
      qed
      have nwl: "\<not> wrapped s (p - 1)"
        using close_not_space[OF bl] unfolding wrapped_def by blast
      have out_p: "wrap_out s p = [65292]"
        using wr[of p] k1 nwl by (simp add: wrap_out_def)
      have out_i: "wrap_out s i = []" if "Suc p \<le> i" "i < p + ?k" for i
      proof -
        from that have "wrapped s i" by (intro wr) simp_all
        moreover from that have "wrapped s (i - 1)" by (intro wr) linarith+
        moreover from that have "0 < i" by simp
        ultimately show ?thesis by (simp add: wrap_out_def)
      qed
      have lastc: "last (takeWhile is_space ?s') = s ! (p + ?k - 1)"
      proof -
        have "takeWhile is_space ?s' = take ?k ?s'" by (rule takeWhile_eq_take)
        then have "last (takeWhile is_space ?s') = last (take ?k ?s')" by simp
        also have "\<dots> = ?s' ! (?k - 1)"
          using k1 length_takeWhile_le[of is_space ?s']
          by (subst last_conv_nth) (auto simp: min_def)
        also have "\<dots> = s ! (p + (?k - 1))" using less.prems(1) by simp
        also have "p + (?k - 1) = p + ?k - 1" using k1 by linarith
        finally show ?thesis .
      qed
      have pa: "Some (last (takeWhile is_space ?s')) = prev_at s (p + ?k)"
        using k1 by (simp add: prev_at_def lastc)
      have inv: "0 < p + ?k \<and> is_space (s ! (p + ?k - 1)) \<longrightarrow> \<not> wrapped s (p + ?k)"
        using open_not_space[OF br] unfolding wrapped_def by blast
      have ih: "re_sub_at ?pat (\<lambda>gs. [65292]) (prev_at s (p + ?k)) (drop (p + ?k) s) =
          concat (map (wrap_out s) [p + ?k..<length s])"
      proof (rule less.hyps)
        show "length s - (p + ?k) < length s - p" using pk k1 by linarith
        show "p + ?k \<le> length s" using pk by simp
        show "0 < p + ?k \<and> is_space (s ! (p + ?k - 1)) \<longrightarrow> \<not> wrapped s (p + ?k)"
          by (rule inv)
      qed
      have split: "[p..<length s] = p # [Suc p..<p + ?k] @ [p + ?k..<length s]"
      proof -
        have "[p..<p + ?k + (length s - (p + ?k))] =
            [p..<p + ?k] @ [p + ?k..<p + ?k + (length s - (p + ?k))]"
          by (rule upt_add_eq_append) simp
        moreover have "p + ?k + (length s - (p + ?k)) = length s" using pk by linarith
        moreover have "[p..<p + ?k] = p # [Suc p..<p + ?k]"
          using k1 by (intro upt_conv_Cons) linarith
        ultimately show ?thesis by simp
      qed
      have "concat (map (wrap_out s) [Suc p..<p + ?k]) = []"
        using out_i by simp
      then have rhs: "concat (map (wrap_out s) [p..<length s]) =
          [65292] @ concat (map (wrap_out s) [p + ?k..<length s])"
        by (subst split) (simp add: out_p)
      show ?thesis
        by (subst nc_sub_match[OF True]) (simp only: pa dd ih rhs)
    next
      case False
      have nb: "\<not> wrapped s p"
      proof
        assume b: "wrapped s p"
        then obtain l r m where
          w: "l < p" "p < r" "r < length s" "cjk_or_close (s ! l)"
          "cjk_or_open (s ! r)" "\<forall>j. l < j \<and> j < r \<longrightarrow> is_space (s ! j)"
          "l < m" "m < r" "s ! m = 10"
          by (rule wrappedE)
        show False
        proof (cases "l = p - 1")
          case True
          with w have pv: "\<exists>c. prev_at s p = Some c \<and> cjk_or_close c" by (simp add: prev_at_def)
          have len: "?k = r - p"
            using w(2,3,6) open_not_space[OF w(5)] True w(1)
            by (intro takeWhile_drop_len) auto
          have mp: "p \<le> m" using w(7) True w(1) by linarith
          then have "m - p < ?k" using w(8) len by linarith
          moreover have "takeWhile is_space ?s' ! (m - p) = 10"
            using \<open>m - p < ?k\<close> w(9) mp less.prems(1) by (simp add: takeWhile_nth)
          ultimately have in10: "10 \<in> set (takeWhile is_space ?s')"
            by (metis nth_mem)
          have "dropWhile is_space ?s' = drop r s"
            using len w(2)
            by (subst drop_takeWhile_len[of is_space ?s', symmetric]) (simp add: add.commute)
          moreover have "drop r s \<noteq> []" "hd (drop r s) = s ! r"
            using w(3) by (simp_all add: hd_drop_conv_nth)
          ultimately have ?cond using pv w(5) in10 by simp
          with False show False by simp
        next
          case False
          with w(1) have "l < p - 1" "0 < p" by simp_all
          with w(2,6) have "is_space (s ! (p - 1))" by simp
          with less.prems(2) \<open>0 < p\<close> b show False by simp
        qed
      qed
      have inv: "0 < Suc p \<and> is_space (s ! (Suc p - 1)) \<longrightarrow> \<not> wrapped s (Suc p)"
        using nb wrapped_step[of s p] by auto
      have ih: "re_sub_at ?pat (\<lambda>gs. [65292]) (prev_at s (Suc p)) (drop (Suc p) s) =
          concat (map (wrap_out s) [Suc p..<length s])"
      proof (rule less.hyps)
        show "length s - Suc p < length s - p" using pl by linarith
        show "Suc p \<le> length s" using pl by simp
        show "0 < Suc p \<and> is_space (s ! (Suc p - 1)) \<longrightarrow> \<not> wrapped s (Suc p)"
          by (rule inv)
      qed
      have pa: "Some (s ! p) = prev_at s (Suc p)" by (simp add: prev_at_def)
      have rhs: "concat (map (wrap_out s) [p..<length s]) =
          s ! p # concat (map (wrap_out s) [Suc p..<length s])"
        using pl nb by (simp add: upt_conv_Cons wrap_out_def)
      show ?thesis
        by (subst nc_sub_nomatch[OF False]) (simp only: cons list.case pa ih rhs)
    qed
  qed
qed

lemma wrap_step: "re_sub [LookBehind cjk_or_close, Star is_space, Plus is_nl, Star is_space,
              LookAhead cjk_or_open] (\<lambda>gs. [65292]) s = wrap_spec s"
proof -
  have "re_sub_at [LookBehind cjk_or_close, Star is_space, Plus is_nl, Star is_space,
              LookAhead cjk_or_open] (\<lambda>gs. [65292]) (prev_at s 0) (drop 0 s) =
         concat (map (wrap_out s) [0..<length s])"
    by (rule wrap_from) simp_all
  then show ?thesis by (simp add: re_sub_def prev_at_def wrap_spec_alt)
qed


lemma collapse_spec_Nil: "collapse_spec x [] = []"
  by (simp add: collapse_spec_def)

lemma collapse_spec_Cons:
  "collapse_spec x (c # cs) =
     (if c = x \<and> cs \<noteq> [] \<and> hd cs = x then [] else [c]) @ collapse_spec x cs"
proof -
  define Q where "Q = (\<lambda>t i. \<not> (t ! i = x \<and> Suc i < length t \<and> t ! Suc i = (x::nat)))"
  have cdef: "collapse_spec x t = map ((!) t) (filter (Q t) [0..<length t])" for t
    unfolding collapse_spec_def Q_def ..
  have u: "[0..<length (c # cs)] = 0 # map Suc [0..<length cs]"
    by (simp only: length_Cons upt_conv_Cons[OF zero_less_Suc] map_Suc_upt)
  have qs: "Q (c # cs) \<circ> Suc = Q cs" by (auto simp: fun_eq_iff Q_def)
  have ns: "(!) (c # cs) \<circ> Suc = (!) cs" by (auto simp: fun_eq_iff)
  have "map ((!) (c # cs)) (filter (Q (c # cs)) (map Suc [0..<length cs])) =
        map ((!) (c # cs)) (map Suc (filter (Q (c # cs) \<circ> Suc) [0..<length cs]))"
    by (simp only: filter_map)
  also have "\<dots> = map ((!) (c # cs) \<circ> Suc) (filter (Q (c # cs) \<circ> Suc) [0..<length cs])"
    by (simp only: map_map)
  also have "\<dots> = collapse_spec x cs" by (simp only: qs ns cdef)
  finally have A: "map ((!) (c # cs)) (filter (Q (c # cs)) (map Suc [0..<length cs])) =
        collapse_spec x cs" .
  have q0: "Q (c # cs) 0 \<longleftrightarrow> \<not> (c = x \<and> cs \<noteq> [] \<and> hd cs = x)"
    by (cases cs) (auto simp: Q_def)
  have "collapse_spec x (c # cs) =
      map ((!) (c # cs)) (filter (Q (c # cs)) (0 # map Suc [0..<length cs]))"
    by (simp only: cdef u)
  also have "\<dots> = (if Q (c # cs) 0 then [c] else []) @
      map ((!) (c # cs)) (filter (Q (c # cs)) (map Suc [0..<length cs]))"
    by simp
  also have "\<dots> = (if c = x \<and> cs \<noteq> [] \<and> hd cs = x then [] else [c]) @ collapse_spec x cs"
    unfolding A q0 by simp
  finally show ?thesis .
qed

lemma collapse_spec_run:
  "cs \<noteq> [] \<Longrightarrow> hd cs = x \<Longrightarrow>
   collapse_spec x cs = x # collapse_spec x (dropWhile (\<lambda>c. c = x) cs)"
proof (induction cs)
  case Nil
  then show ?case by simp
next
  case (Cons d ds)
  then have d: "d = x" by simp
  show ?case
  proof (cases "ds \<noteq> [] \<and> hd ds = x")
    case True
    with Cons.IH have "collapse_spec x ds = x # collapse_spec x (dropWhile (\<lambda>c. c = x) ds)"
      by simp
    with True d show ?thesis by (simp add: collapse_spec_Cons)
  next
    case False
    then have "dropWhile (\<lambda>c. c = x) ds = ds" by (cases ds) auto
    with False d show ?thesis by (auto simp: collapse_spec_Cons)
  qed
qed

lemma sub_runs_collapse: "sub_runs (\<lambda>c. c = x) 2 [x] t = collapse_spec x t"
proof (induction "\<lambda>c::nat. c = x" "2::nat" "[x]" t rule: sub_runs.induct)
  case 1
  then show ?case by (simp add: collapse_spec_Nil)
next
  case (2 c cs)
  show ?case
  proof (cases "c = x \<and> 2 \<le> Suc (length (takeWhile (\<lambda>c. c = x) cs))")
    case True
    then have "takeWhile (\<lambda>c. c = x) cs \<noteq> []" by auto
    then have cs: "cs \<noteq> []" "hd cs = x" by (cases cs; auto split: if_splits)+
    from 2(1)[OF True] True have
      "sub_runs (\<lambda>c. c = x) 2 [x] (c # cs) = x # collapse_spec x (dropWhile (\<lambda>c. c = x) cs)"
      by simp
    also have "\<dots> = collapse_spec x cs" using collapse_spec_run[OF cs] by simp
    also have "\<dots> = collapse_spec x (c # cs)" using True cs by (simp add: collapse_spec_Cons)
    finally show ?thesis .
  next
    case False
    note F = this
    have "\<not> (c = x \<and> cs \<noteq> [] \<and> hd cs = x)"
    proof
      assume a: "c = x \<and> cs \<noteq> [] \<and> hd cs = x"
      then have "takeWhile (\<lambda>c. c = x) cs \<noteq> []" by (cases cs) auto
      then have "0 < length (takeWhile (\<lambda>c. c = x) cs)" by simp
      then have "2 \<le> Suc (length (takeWhile (\<lambda>c. c = x) cs))" by linarith
      with a F show False by blast
    qed
    then have c: "collapse_spec x (c # cs) = c # collapse_spec x cs"
      by (simp only: collapse_spec_Cons if_False append_Cons append_Nil)
    have "sub_runs (\<lambda>c. c = x) 2 [x] (c # cs) = c # sub_runs (\<lambda>c. c = x) 2 [x] cs"
      by (simp only: sub_runs.simps(2) F if_False)
    with 2(2)[OF F] c show ?thesis by simp
  qed
qed

lemma set_collapse_spec: "set (collapse_spec x t) \<subseteq> set t"
  by (auto simp: collapse_spec_def)

lemma collapse_spec_hd:
  "(collapse_spec x t = [] \<longleftrightarrow> t = []) \<and> (t \<noteq> [] \<longrightarrow> hd (collapse_spec x t) = hd t)"
proof (induction t)
  case Nil
  then show ?case by (simp add: collapse_spec_Nil)
next
  case (Cons c cs)
  then show ?case by (auto simp: collapse_spec_Cons)
qed

lemma collapse_spec_successively:
  "successively (\<lambda>a b. \<not> (a = x \<and> b = x)) (collapse_spec x t)"
proof (induction t)
  case Nil
  then show ?case by (simp add: collapse_spec_Nil)
next
  case (Cons c cs)
  show ?case
  proof (cases "c = x \<and> cs \<noteq> [] \<and> hd cs = x")
    case True
    with Cons show ?thesis by (simp add: collapse_spec_Cons)
  next
    case False
    have "collapse_spec x cs = [] \<or> \<not> (c = x \<and> hd (collapse_spec x cs) = x)"
      using False collapse_spec_hd[of x cs] by auto
    with False Cons show ?thesis by (auto simp: collapse_spec_Cons successively_Cons)
  qed
qed

lemma successively_nthD:
  "successively P t \<Longrightarrow> Suc i < length t \<Longrightarrow> P (t ! i) (t ! Suc i)"
proof (induction t arbitrary: i)
  case Nil
  then show ?case by simp
next
  case (Cons c cs)
  show ?case
  proof (cases i)
    case 0
    with Cons.prems show ?thesis by (cases cs) auto
  next
    case (Suc n)
    from Cons.prems have "successively P cs" by (cases cs) auto
    with Cons.IH[of n] Cons.prems Suc show ?thesis by simp
  qed
qed

lemma re_sub_runs_top:
  "0 < lo \<Longrightarrow> re_sub [Rep P lo None False] (\<lambda>gs. r) s = sub_runs P lo r s"
  by (simp add: re_sub_def re_sub_runs)

text \<open>
  Claim C6. For every input, \<^verbatim>\<open>newline_to_cjk_comma\<close> replaces each
  whitespace-and-newline run between a CJK character (or \<^verbatim>\<open>]\<close>) and a following CJK
  character or opening quote or bracket by one fullwidth comma, then deletes every
  remaining line feed, then collapses each run of two or more fullwidth commas to one;
  the output contains no line feed and no two adjacent fullwidth commas.
\<close>

theorem newline_to_cjk_comma_spec:
  "newline_to_cjk_comma s = collapse_spec 65292 (filter (\<lambda>c. c \<noteq> 10) (wrap_spec s)) \<and>
   10 \<notin> set (newline_to_cjk_comma s) \<and>
   (\<forall>i. Suc i < length (newline_to_cjk_comma s) \<longrightarrow>
        \<not> (newline_to_cjk_comma s ! i = 65292 \<and> newline_to_cjk_comma s ! Suc i = 65292))"
proof -
  have eq: "newline_to_cjk_comma s = collapse_spec 65292 (filter (\<lambda>c. c \<noteq> 10) (wrap_spec s))"
  proof (cases "s = []")
    case True
    then show ?thesis
      by (simp add: newline_to_cjk_comma_def wrap_spec_def collapse_spec_Nil)
  next
    case False
    then show ?thesis
      by (simp add: newline_to_cjk_comma_def Let_def wrap_step re_sub_runs_top
          sub_runs_collapse)
  qed
  have "set (newline_to_cjk_comma s) \<subseteq> set (filter (\<lambda>c. c \<noteq> 10) (wrap_spec s))"
    unfolding eq by (rule set_collapse_spec)
  then have nl: "10 \<notin> set (newline_to_cjk_comma s)" by auto
  have "successively (\<lambda>a b. \<not> (a = 65292 \<and> b = 65292)) (newline_to_cjk_comma s)"
    unfolding eq by (rule collapse_spec_successively)
  then have adj: "\<forall>i. Suc i < length (newline_to_cjk_comma s) \<longrightarrow>
        \<not> (newline_to_cjk_comma s ! i = 65292 \<and> newline_to_cjk_comma s ! Suc i = 65292)"
    by (auto dest: successively_nthD)
  from eq nl adj show ?thesis by blast
qed

theorem newline_to_cjk_comma_spec_witness:
  "newline_to_cjk_comma [20013, 32, 10, 25991, 10, 97] = [20013, 65292, 25991, 97]"
proof -
  let ?s = "[20013, 32, 10, 25991, 10, 97::nat]"
  have c: "cjk_or_close 20013" "cjk_or_open 25991" "is_space 32" "is_space 10"
    "\<not> is_space 20013" "\<not> is_space 25991" "\<not> is_space 97" "\<not> cjk_or_open 97"
    by (simp_all add: cjk_or_close_def cjk_or_open_def is_cjk_def is_space_def)
  have n0: "\<not> wrapped ?s 0" by (simp add: wrapped_def c)
  have sp: "\<forall>j. 0 < j \<and> j < 3 \<longrightarrow> is_space (?s ! j)"
  proof (intro allI impI)
    fix j :: nat assume "0 < j \<and> j < 3"
    then have "j = 1 \<or> j = 2" by arith
    then show "is_space (?s ! j)" by (auto simp: c)
  qed
  have y1: "wrapped ?s 1"
    by (rule wrappedI[of 0 1 3 ?s 2, OF _ _ _ _ _ sp]) (simp_all add: c)
  have y2: "wrapped ?s 2"
    by (rule wrappedI[of 0 2 3 ?s 2, OF _ _ _ _ _ sp]) (simp_all add: c)
  have n3: "\<not> wrapped ?s 3" by (simp add: wrapped_def c)
  have r5: "r = 5" if "4 < r" "r < 6" for r :: nat using that by arith
  have n4: "\<not> wrapped ?s 4"
  proof
    assume "wrapped ?s 4"
    then obtain l r m where "4 < r" "r < length ?s" "cjk_or_open (?s ! r)"
      by (rule wrappedE)
    then show False using c(8) r5[of r] by auto
  qed
  have n5: "\<not> wrapped ?s 5" by (simp add: wrapped_def c)
  have u: "[0..<length ?s] = [0, 1, 2, 3, 4, 5]" by (simp add: upt_rec)
  have w: "wrap_spec ?s = [20013, 65292, 25991, 10, 97]"
    unfolding wrap_spec_def u using n0 y1 y2 n3 n4 n5 by simp
  have "collapse_spec 65292 (filter (\<lambda>c. c \<noteq> 10) (wrap_spec ?s)) = [20013, 65292, 25991, 97]"
    unfolding w by (simp add: collapse_spec_Cons collapse_spec_Nil)
  with newline_to_cjk_comma_spec[of ?s] show ?thesis by simp
qed

section \<open>The file-name slug, by positions\<close>

text \<open>
  The wording of the claim, by positions. A character is \<open>kept\<close> when it is a word
  character other than the underscore, a hyphen or a CJK character. Position \<open>i\<close> of the
  stripped input \<open>t\<close> gives its character when that is kept; it gives one underscore when it
  is the first position of a maximal run of other characters (the character before it is
  kept) and a kept character follows the run somewhere; it gives nothing otherwise, so a
  run at the start or at the end of \<open>t\<close> leaves no trace.
\<close>

definition kept :: "(nat \<Rightarrow> bool) \<Rightarrow> nat \<Rightarrow> bool" where
  "kept U c \<longleftrightarrow> (is_word U c \<or> c = 45 \<or> is_cjk c) \<and> c \<noteq> 95"

definition slug_out :: "(nat \<Rightarrow> bool) \<Rightarrow> ustr \<Rightarrow> nat \<Rightarrow> ustr" where
  "slug_out U t i =
     (if kept U (t ! i) then [t ! i]
      else if 0 < i \<and> kept U (t ! (i - 1)) \<and> (\<exists>j\<in>{i<..<length t}. kept U (t ! j)) then [95]
      else [])"

definition slug_spec :: "(nat \<Rightarrow> bool) \<Rightarrow> ustr \<Rightarrow> ustr" where
  "slug_spec U s = concat (map (slug_out U (strip s)) [0..<length (strip s)])"

text \<open>The same output, computed from left to right.\<close>

fun slug_rec :: "(nat \<Rightarrow> bool) \<Rightarrow> bool \<Rightarrow> ustr \<Rightarrow> ustr" where
  "slug_rec U p [] = []"
| "slug_rec U p (c # cs) =
     (if kept U c then [c] else if p \<and> (\<exists>e\<in>set cs. kept U e) then [95] else []) @
     slug_rec U (kept U c) cs"

lemma ex_nth_shift:
  "(\<exists>j\<in>{Suc i<..<Suc n}. Q ((c # cs) ! j)) \<longleftrightarrow> (\<exists>j\<in>{i<..<n}. Q (cs ! j))"
proof
  assume "\<exists>j\<in>{Suc i<..<Suc n}. Q ((c # cs) ! j)"
  then obtain j where j: "Suc i < j" "j < Suc n" "Q ((c # cs) ! j)" by auto
  then obtain k where k: "j = Suc k" by (cases j) auto
  with j have "i < k" "k < n" "Q (cs ! k)" by auto
  then show "\<exists>j\<in>{i<..<n}. Q (cs ! j)" by auto
next
  assume "\<exists>j\<in>{i<..<n}. Q (cs ! j)"
  then obtain k where k: "i < k" "k < n" "Q (cs ! k)" by auto
  then have "Suc k \<in> {Suc i<..<Suc n}" "Q ((c # cs) ! Suc k)" by auto
  then show "\<exists>j\<in>{Suc i<..<Suc n}. Q ((c # cs) ! j)" by blast
qed

lemma ex_nth_tail:
  "(\<exists>j\<in>{0<..<Suc (length cs)}. Q ((c # cs) ! j)) \<longleftrightarrow> (\<exists>e\<in>set cs. Q e)"
proof
  assume "\<exists>j\<in>{0<..<Suc (length cs)}. Q ((c # cs) ! j)"
  then obtain j where j: "0 < j" "j < Suc (length cs)" "Q ((c # cs) ! j)" by auto
  then obtain k where k: "j = Suc k" by (cases j) auto
  with j have "k < length cs" "Q (cs ! k)" by auto
  then show "\<exists>e\<in>set cs. Q e" using nth_mem by blast
next
  assume "\<exists>e\<in>set cs. Q e"
  then obtain k where k: "k < length cs" "Q (cs ! k)" by (auto simp: in_set_conv_nth)
  then have "Suc k \<in> {0<..<Suc (length cs)}" "Q ((c # cs) ! Suc k)" by auto
  then show "\<exists>j\<in>{0<..<Suc (length cs)}. Q ((c # cs) ! j)" by blast
qed

definition slug_out_from :: "(nat \<Rightarrow> bool) \<Rightarrow> bool \<Rightarrow> ustr \<Rightarrow> nat \<Rightarrow> ustr" where
  "slug_out_from U p t i =
     (if kept U (t ! i) then [t ! i]
      else if (if i = 0 then p else kept U (t ! (i - 1))) \<and>
              (\<exists>j\<in>{i<..<length t}. kept U (t ! j)) then [95]
      else [])"

lemma slug_out_from_Suc:
  "slug_out_from U p (c # cs) (Suc i) = slug_out_from U (kept U c) cs i"
proof -
  have a: "(\<exists>j\<in>{Suc i<..<length (c # cs)}. kept U ((c # cs) ! j)) \<longleftrightarrow>
      (\<exists>j\<in>{i<..<length cs}. kept U (cs ! j))"
    using ex_nth_shift[of i "length cs" "kept U" c cs] by simp
  have b: "kept U ((c # cs) ! (Suc i - 1)) = (if i = 0 then kept U c else kept U (cs ! (i - 1)))"
    by (cases i) simp_all
  show ?thesis
    unfolding slug_out_from_def a b by simp
qed

lemma slug_out_from_0:
  "slug_out_from U p (c # cs) 0 =
     (if kept U c then [c] else if p \<and> (\<exists>e\<in>set cs. kept U e) then [95] else [])"
proof -
  have a: "(\<exists>j\<in>{0<..<length (c # cs)}. kept U ((c # cs) ! j)) \<longleftrightarrow> (\<exists>e\<in>set cs. kept U e)"
    using ex_nth_tail[of cs "kept U" c] by simp
  show ?thesis unfolding slug_out_from_def a by simp
qed

lemma slug_from_rec:
  "concat (map (slug_out_from U p t) [0..<length t]) = slug_rec U p t"
proof (induction t arbitrary: p)
  case Nil
  then show ?case by simp
next
  case (Cons c cs)
  have u: "[0..<length (c # cs)] = 0 # map Suc [0..<length cs]"
    unfolding map_Suc_upt by (simp add: upt_conv_Cons del: upt_Suc)
  have "concat (map (slug_out_from U p (c # cs)) [0..<length (c # cs)]) =
      slug_out_from U p (c # cs) 0 @
      concat (map (slug_out_from U (kept U c) cs) [0..<length cs])"
    unfolding u by (simp add: comp_def slug_out_from_Suc)
  then show ?case by (simp only: Cons.IH slug_out_from_0 slug_rec.simps)
qed

lemma slug_out_from_False: "slug_out_from U False t = slug_out U t"
  by (rule ext) (auto simp: slug_out_from_def slug_out_def)

lemma slug_spec_rec: "slug_spec U s = slug_rec U False (strip s)"
  unfolding slug_spec_def slug_out_from_False[symmetric] by (rule slug_from_rec)

text \<open>
  The two substitutions together replace each maximal run of characters that are not kept
  by one underscore.
\<close>

lemma kept_slug: "kept U c \<longleftrightarrow> slug_char U c \<and> c \<noteq> 95"
  by (simp add: kept_def slug_char_def)

lemma collapse_sub_bad:
  "\<not> kept U c \<Longrightarrow>
   collapse_spec 95 (sub_runs (\<lambda>c. \<not> slug_char U c) (Suc 0) [95] (c # cs)) =
   95 # collapse_spec 95 (sub_runs (\<lambda>c. \<not> slug_char U c) (Suc 0) [95]
                             (dropWhile (\<lambda>c. \<not> kept U c) cs))"
proof (induction cs arbitrary: c)
  case Nil
  then show ?case
    by (auto simp: kept_slug collapse_spec_Cons collapse_spec_Nil)
next
  case (Cons e es)
  let ?H = "sub_runs (\<lambda>c. \<not> slug_char U c) (Suc 0) [95]"
  show ?case
  proof (cases "kept U e")
    case True
    then have e: "slug_char U e" "e \<noteq> 95" by (simp_all add: kept_slug)
    have he: "?H (e # es) = e # ?H es" using e by simp
    have "?H (c # e # es) = 95 # ?H (e # es)"
      using Cons.prems e by (auto simp: kept_slug)
    then show ?thesis using True e he by (simp add: collapse_spec_Cons)
  next
    case False
    note ih = Cons.IH[OF False]
    have hd_e: "\<exists>Z. ?H (e # es) = 95 # Z"
      using False by (auto simp: kept_slug)
    have same: "collapse_spec 95 (?H (c # e # es)) = collapse_spec 95 (?H (e # es))"
    proof (cases "slug_char U c")
      case True
      with Cons.prems have c: "c = 95" by (simp add: kept_slug)
      have "?H (c # e # es) = 95 # ?H (e # es)" using True c by simp
      with hd_e show ?thesis by (auto simp: collapse_spec_Cons)
    next
      case Nc: False
      show ?thesis
      proof (cases "slug_char U e")
        case True
        with False have e: "e = 95" by (simp add: kept_slug)
        have a: "?H (c # e # es) = 95 # ?H (e # es)" using Nc True by simp
        with hd_e show ?thesis by (auto simp: collapse_spec_Cons)
      next
        case Ne: False
        have "?H (c # e # es) = ?H (e # es)" using Nc Ne by simp
        then show ?thesis by simp
      qed
    qed
    show ?thesis using same ih False by simp
  qed
qed

lemma both_subs:
  "collapse_spec 95 (sub_runs (\<lambda>c. \<not> slug_char U c) (Suc 0) [95] t) =
   sub_runs (\<lambda>c. \<not> kept U c) (Suc 0) [95] t"
proof (induction "\<lambda>c. \<not> kept U c" "Suc 0" "[95::nat]" t rule: sub_runs.induct)
  case 1
  then show ?case by (simp add: collapse_spec_Nil)
next
  case (2 c cs)
  show ?case
  proof (cases "kept U c")
    case True
    then have c: "slug_char U c" "c \<noteq> 95" by (simp_all add: kept_slug)
    have "\<not> (\<not> kept U c \<and> Suc 0 \<le> Suc (length (takeWhile (\<lambda>c. \<not> kept U c) cs)))"
      using True by simp
    from 2(2)[OF this] c True show ?thesis by (simp add: collapse_spec_Cons)
  next
    case False
    then have "\<not> kept U c \<and> Suc 0 \<le> Suc (length (takeWhile (\<lambda>c. \<not> kept U c) cs))" by simp
    from 2(1)[OF this] collapse_sub_bad[OF False, of cs] False show ?thesis by simp
  qed
qed

text \<open>Stripping the underscores at the two ends.\<close>

definition rstrip_u :: "ustr \<Rightarrow> ustr" where
  "rstrip_u t = rev (dropWhile (\<lambda>c. c = 95) (rev t))"

lemma rstrip_u_Nil: "rstrip_u [] = []"
  by (simp add: rstrip_u_def)

lemma rstrip_u_Cons:
  "rstrip_u (c # cs) = (if c = 95 \<and> (\<forall>x\<in>set cs. x = 95) then [] else c # rstrip_u cs)"
  by (auto simp: rstrip_u_def dropWhile_append)

lemma strip_chars_rstrip: "strip_chars (\<lambda>c. c = 95) t = rstrip_u (dropWhile (\<lambda>c. c = 95) t)"
  by (simp add: strip_chars_def rstrip_u_def)

lemma dropWhile_bad_cases:
  "dropWhile (\<lambda>c. \<not> kept U c) t = [] \<and> (\<forall>e\<in>set t. \<not> kept U e) \<or>
   (\<exists>d ds. dropWhile (\<lambda>c. \<not> kept U c) t = d # ds \<and> kept U d \<and> (\<exists>e\<in>set t. kept U e))"
proof (cases "dropWhile (\<lambda>c. \<not> kept U c) t")
  case Nil
  then show ?thesis by (auto simp: dropWhile_eq_Nil_conv)
next
  case (Cons d ds)
  then have "kept U d" using hd_dropWhile[of "\<lambda>c. \<not> kept U c" t] by auto
  moreover have "d \<in> set t" using Cons set_dropWhileD[of d "\<lambda>c. \<not> kept U c" t] by simp
  ultimately show ?thesis using Cons by auto
qed

lemma drop_u_sub:
  "dropWhile (\<lambda>c. c = 95) (sub_runs (\<lambda>c. \<not> kept U c) (Suc 0) [95] t) =
   sub_runs (\<lambda>c. \<not> kept U c) (Suc 0) [95] (dropWhile (\<lambda>c. \<not> kept U c) t)"
proof (cases t)
  case Nil
  then show ?thesis by simp
next
  case (Cons c cs)
  show ?thesis
  proof (cases "kept U c")
    case True
    then show ?thesis using Cons by (simp add: kept_slug)
  next
    case False
    from dropWhile_bad_cases[of U cs] show ?thesis
    proof
      assume "dropWhile (\<lambda>c. \<not> kept U c) cs = [] \<and> (\<forall>e\<in>set cs. \<not> kept U e)"
      then have a: "dropWhile (\<lambda>c. \<not> kept U c) cs = []" by blast
      show ?thesis using Cons False by (simp add: a)
    next
      assume "\<exists>d ds. dropWhile (\<lambda>c. \<not> kept U c) cs = d # ds \<and> kept U d \<and>
          (\<exists>e\<in>set cs. kept U e)"
      then obtain d ds where d: "dropWhile (\<lambda>c. \<not> kept U c) cs = d # ds" "kept U d" by blast
      then show ?thesis using Cons False by (simp add: kept_slug)
    qed
  qed
qed

lemma sub_bad_Nil_iff: "sub_runs P (Suc 0) [95] t = [] \<longleftrightarrow> t = []"
  by (cases t) auto

lemma slug_rec_sub:
  "slug_rec U p t =
     (if t = [] then []
      else if \<not> kept U (hd t)
        then (if p \<and> (\<exists>e\<in>set t. kept U e) then [95] else []) @
             rstrip_u (sub_runs (\<lambda>c. \<not> kept U c) (Suc 0) [95] (dropWhile (\<lambda>c. \<not> kept U c) t))
      else rstrip_u (sub_runs (\<lambda>c. \<not> kept U c) (Suc 0) [95] t))"
proof (induction t arbitrary: p)
  case Nil
  then show ?case by simp
next
  case (Cons c cs)
  let ?B = "\<lambda>c. \<not> kept U c"
  let ?G = "sub_runs ?B (Suc 0) [95]"
  note ih = Cons.IH
  show ?case
  proof (cases "kept U c")
    case True
    then have c95: "c \<noteq> 95" by (simp add: kept_slug)
    have g: "?G (c # cs) = c # ?G cs" using True by simp
    have r: "rstrip_u (?G (c # cs)) = c # rstrip_u (?G cs)"
      unfolding g using c95 by (simp add: rstrip_u_Cons)
    have t: "rstrip_u (?G cs) = slug_rec U True cs"
    proof (cases cs)
      case Nil
      then show ?thesis by (simp add: rstrip_u_Nil)
    next
      case (Cons e es)
      show ?thesis
      proof (cases "kept U e")
        case True
        then show ?thesis using Cons ih[of True] by simp
      next
        case False
        have g2: "?G cs = 95 # ?G (dropWhile ?B cs)" using Cons False by simp
        have nk: "cs \<noteq> []" "\<not> kept U (hd cs)" using Cons False by simp_all
        have ihb: "slug_rec U True cs =
            (if \<exists>e\<in>set cs. kept U e then [95] else []) @ rstrip_u (?G (dropWhile ?B cs))"
          using ih[of True] nk by simp
        from dropWhile_bad_cases[of U cs] show ?thesis
        proof
          assume a: "dropWhile ?B cs = [] \<and> (\<forall>e\<in>set cs. \<not> kept U e)"
          then have a1: "dropWhile ?B cs = []" and a2: "\<forall>e\<in>set cs. \<not> kept U e"
            by blast+
          have "rstrip_u (?G cs) = []"
            unfolding g2 by (simp add: a1 rstrip_u_Cons rstrip_u_Nil)
          moreover have "slug_rec U True cs = []"
            unfolding ihb using a2 by (simp add: a1 rstrip_u_Nil)
          ultimately show ?thesis by simp
        next
          assume "\<exists>d ds. dropWhile ?B cs = d # ds \<and> kept U d \<and> (\<exists>e\<in>set cs. kept U e)"
          then obtain d ds where d: "dropWhile ?B cs = d # ds" "kept U d" "\<exists>e\<in>set cs. kept U e"
            by blast
          then have d95: "d \<noteq> 95" by (simp add: kept_slug)
          have "?G (d # ds) = d # ?G ds" using d by simp
          then have "rstrip_u (?G cs) = 95 # rstrip_u (?G (dropWhile ?B cs))"
            unfolding g2 using d d95 by (simp add: rstrip_u_Cons)
          moreover have "slug_rec U True cs = 95 # rstrip_u (?G (dropWhile ?B cs))"
            unfolding ihb using d(3) by simp
          ultimately show ?thesis by simp
        qed
      qed
    qed
    show ?thesis using True r t by simp
  next
    case False
    have t: "slug_rec U False cs = rstrip_u (?G (dropWhile ?B cs))"
    proof (cases cs)
      case Nil
      then show ?thesis by (simp add: rstrip_u_Nil)
    next
      case (Cons e es)
      then show ?thesis using ih[of False] by (cases "kept U e") simp_all
    qed
    show ?thesis using False t by simp
  qed
qed

lemma strip_sub_spec:
  "strip_chars (\<lambda>c. c = 95) (sub_runs (\<lambda>c. \<not> kept U c) (Suc 0) [95] t) = slug_rec U False t"
proof -
  let ?B = "\<lambda>c. \<not> kept U c"
  let ?G = "sub_runs ?B (Suc 0) [95]"
  have "strip_chars (\<lambda>c. c = 95) (?G t) = rstrip_u (?G (dropWhile ?B t))"
    by (simp only: strip_chars_rstrip drop_u_sub)
  also have "\<dots> = slug_rec U False t"
  proof (cases t)
    case Nil
    then show ?thesis by (simp add: rstrip_u_Nil)
  next
    case (Cons c cs)
    then show ?thesis by (subst slug_rec_sub) (cases "kept U c"; simp)
  qed
  finally show ?thesis .
qed

lemma safe_slug_eq_spec:
  "safe_slug U s = (if slug_spec U s = [] then [78, 65] else slug_spec U s)"
proof -
  have "strip_chars (\<lambda>c. c = 95)
      (sub_runs (\<lambda>c. c = 95) 2 [95]
         (sub_runs (\<lambda>c. \<not> slug_char U c) (Suc 0) [95] (strip s))) = slug_spec U s"
    by (simp only: sub_runs_collapse both_subs strip_sub_spec slug_spec_rec)
  moreover have "s = [] \<Longrightarrow> slug_spec U s = []"
    by (simp add: slug_spec_def strip_def)
  ultimately show ?thesis
    by (auto simp: safe_slug_def Let_def re_sub_runs_top)
qed


lemma slug_rec_Nil_iff: "slug_rec U p t = [] \<longleftrightarrow> (\<forall>c\<in>set t. \<not> kept U c)"
  by (induction t arbitrary: p) auto

lemma slug_rec_all_kept: "\<forall>c\<in>set t. kept U c \<Longrightarrow> slug_rec U p t = t"
  by (induction t arbitrary: p) auto

lemma strip_no_space: "\<forall>c\<in>set t. \<not> is_space c \<Longrightarrow> strip t = t"
proof -
  assume a: "\<forall>c\<in>set t. \<not> is_space c"
  have d: "dropWhile is_space xs = xs" if "\<forall>c\<in>set xs. \<not> is_space c" for xs :: ustr
    using that by (cases xs) auto
  have "dropWhile is_space t = t" using a by (rule d)
  moreover have "dropWhile is_space (rev t) = rev t" using a by (intro d) simp
  ultimately show ?thesis by (simp add: strip_def)
qed

lemma safe_slug_all_kept:
  assumes "s \<noteq> []" "\<forall>c\<in>set s. kept U c \<and> \<not> is_space c"
  shows "safe_slug U s = s"
proof -
  have "strip s = s" using assms(2) by (intro strip_no_space) blast
  then have "slug_spec U s = s" using assms(2) by (simp add: slug_spec_rec slug_rec_all_kept)
  with assms(1) show ?thesis by (simp add: safe_slug_eq_spec)
qed

text \<open>Lengths, in characters and in bytes.\<close>

lemma wsum_dropWhile: "sum_list (map f (dropWhile P s)) \<le> sum_list (map (f :: nat \<Rightarrow> nat) s)"
  by (induction s) auto

lemma wsum_sub_runs:
  "\<forall>c. f 95 \<le> f c \<Longrightarrow>
   sum_list (map f (sub_runs P lo [95] s)) \<le> sum_list (map (f :: nat \<Rightarrow> nat) s)"
proof (induction P lo "[95::nat]" s rule: sub_runs.induct)
  case (1 P lo)
  then show ?case by simp
next
  case (2 P lo c cs)
  show ?case
  proof (cases "P c \<and> lo \<le> Suc (length (takeWhile P cs))")
    case True
    have "sum_list (map f (sub_runs P lo [95] (dropWhile P cs))) \<le>
        sum_list (map f (dropWhile P cs))"
      using 2(1)[OF True 2(3)] .
    also have "\<dots> \<le> sum_list (map f cs)" by (rule wsum_dropWhile)
    finally show ?thesis using True 2(3) by (simp add: add_mono)
  next
    case False
    with 2(2)[OF False 2(3)] show ?thesis by auto
  qed
qed

lemma wsum_strip_chars:
  "sum_list (map f (strip_chars P s)) \<le> sum_list (map (f :: nat \<Rightarrow> nat) s)"
proof -
  have "sum_list (map f (strip_chars P s)) =
      sum_list (map f (dropWhile P (rev (dropWhile P s))))"
    by (simp add: strip_chars_def rev_map[symmetric])
  also have "\<dots> \<le> sum_list (map f (rev (dropWhile P s)))" by (rule wsum_dropWhile)
  also have "\<dots> = sum_list (map f (dropWhile P s))" by (simp add: rev_map[symmetric])
  also have "\<dots> \<le> sum_list (map f s)" by (rule wsum_dropWhile)
  finally show ?thesis .
qed

lemma wsum_safe_slug:
  assumes "\<forall>c. f 95 \<le> f c"
  shows "sum_list (map f (safe_slug U s)) \<le> max (f 78 + f 65) (sum_list (map (f :: nat \<Rightarrow> nat) s))"
proof -
  define s1 where "s1 = strip s"
  define s2 where "s2 = sub_runs (\<lambda>c. \<not> slug_char U c) (Suc 0) [95] s1"
  define s3 where "s3 = sub_runs (\<lambda>c. c = 95) 2 [95] s2"
  define s4 where "s4 = strip_chars (\<lambda>c. c = 95) s3"
  have slug: "safe_slug U s = (if s = [] \<or> s4 = [] then [78, 65] else s4)"
    by (simp add: safe_slug_def Let_def re_sub_runs_top s1_def s2_def s3_def s4_def)
  have "sum_list (map f s4) \<le> sum_list (map f s3)"
    unfolding s4_def by (rule wsum_strip_chars)
  also have "\<dots> \<le> sum_list (map f s2)"
    unfolding s3_def using assms by (rule wsum_sub_runs)
  also have "\<dots> \<le> sum_list (map f s1)"
    unfolding s2_def using assms by (rule wsum_sub_runs)
  also have "\<dots> \<le> sum_list (map f s)"
    using wsum_strip_chars[of f is_space s] by (simp add: s1_def strip_def strip_chars_def)
  finally have "sum_list (map f s4) \<le> sum_list (map f s)" .
  then show ?thesis by (auto simp: slug)
qed

lemma length_safe_slug: "length (safe_slug U s) \<le> max 2 (length s)"
  using wsum_safe_slug[of "\<lambda>c. 1" U s] by (simp add: sum_list_triv)

lemma name_bytes_safe_slug: "name_bytes (safe_slug U s) \<le> max 2 (name_bytes s)"
proof -
  have "\<forall>c. utf8_len 95 \<le> utf8_len c" by (simp add: utf8_len_def)
  then have "sum_list (map utf8_len (safe_slug U s)) \<le>
      max (utf8_len 78 + utf8_len 65) (sum_list (map utf8_len s))"
    by (rule wsum_safe_slug)
  moreover have "utf8_len 78 + utf8_len 65 = 2" by (simp add: utf8_len_def)
  ultimately show ?thesis by (simp add: name_bytes_def)
qed

lemma safe_slug_shape_aux:
  "safe_slug U s \<noteq> [] \<and>
   (\<forall>c\<in>set (safe_slug U s). slug_char U c) \<and>
   (\<forall>i. Suc i < length (safe_slug U s) \<longrightarrow>
        \<not> (safe_slug U s ! i = 95 \<and> safe_slug U s ! Suc i = 95)) \<and>
   hd (safe_slug U s) \<noteq> 95 \<and> last (safe_slug U s) \<noteq> 95"
proof -
  define s1 where "s1 = strip s"
  define s2 where "s2 = sub_runs (\<lambda>c. \<not> slug_char U c) (Suc 0) [95] s1"
  define s3 where "s3 = sub_runs (\<lambda>c. c = 95) 2 [95] s2"
  define s4 where "s4 = strip_chars (\<lambda>c. c = 95) s3"
  have slug: "safe_slug U s = (if s = [] \<or> s4 = [] then [78, 65] else s4)"
    by (simp add: safe_slug_def Let_def re_sub_runs_top s1_def s2_def s3_def s4_def)
  have na: "\<forall>c\<in>set [78, 65::nat]. slug_char U c"
    by (simp add: slug_char_def is_word_def ascii_alnum_def)
  have u: "slug_char U 95" by (simp add: slug_char_def is_word_def)
  have set2: "\<forall>c\<in>set s2. slug_char U c"
    using set_sub_runs_plus[of "\<lambda>c. \<not> slug_char U c" "[95]" s1] u by (auto simp: s2_def)
  have set3: "\<forall>c\<in>set s3. slug_char U c"
    using set_sub_runs_subset[of "[95]" "\<lambda>c. c = 95" 2 s2] set2 u by (auto simp: s3_def)
  have set4: "\<forall>c\<in>set s4. slug_char U c"
    using set_strip_chars[of "\<lambda>c. c = 95" s3] set3 by (auto simp: s4_def)
  have chars: "\<forall>c\<in>set (safe_slug U s). slug_char U c"
    using na set4 by (simp add: slug)
  have uu4: "no_uu s4"
    unfolding s4_def s3_def using no_uu_sub_runs_aux[of s2] by (intro no_uu_strip_chars) simp
  have adj: "\<forall>i. Suc i < length (safe_slug U s) \<longrightarrow>
        \<not> (safe_slug U s ! i = 95 \<and> safe_slug U s ! Suc i = 95)"
  proof (cases "s = [] \<or> s4 = []")
    case True
    then have "safe_slug U s = [78, 65]" by (simp add: slug)
    then show ?thesis by (simp add: less_Suc_eq)
  next
    case False
    then have "safe_slug U s = s4" by (simp add: slug)
    with uu4 show ?thesis by (auto dest: no_uu_nth)
  qed
  have ends: "hd (safe_slug U s) \<noteq> 95 \<and> last (safe_slug U s) \<noteq> 95"
  proof (cases "s = [] \<or> s4 = []")
    case True
    then show ?thesis by (simp add: slug)
  next
    case False
    then have "s4 \<noteq> []" by simp
    with strip_chars_hd[of "\<lambda>c. c = 95" s3] strip_chars_last[of "\<lambda>c. c = 95" s3] False
    show ?thesis by (simp add: slug s4_def)
  qed
  have ne: "safe_slug U s \<noteq> []" by (simp add: slug)
  from ne chars adj ends show ?thesis by blast
qed

text \<open>
  Claim C9, amended. For every input (and every table \<open>U\<close> of non-ASCII alphanumerics)
  \<^verbatim>\<open>safe_slug\<close> returns \<open>slug_spec\<close> of the input, or \<^verbatim>\<open>NA\<close> when that is empty, which
  happens exactly when the stripped input has no kept character. So every kept character
  is preserved, in order; each maximal run of other characters (underscores among them)
  that lies between two kept characters has become exactly one underscore; and such a run
  at either end has been dropped. The result is non-empty; each of its characters is a
  word character, a hyphen or a CJK character; it has no two consecutive underscores and
  neither starts nor ends with an underscore; it contains neither \<^verbatim>\<open>/\<close> nor the
  character 0; and, unless it is \<^verbatim>\<open>NA\<close>, it is no longer than the input, in characters
  and in UTF-8 bytes. Its length has no other bound: a long title gives a slug that is
  too long for a file name (shown below), so the slug is not always
  usable as a file-name component.
\<close>

theorem safe_slug_spec:
  "safe_slug U s = (if slug_spec U s = [] then [78, 65] else slug_spec U s) \<and>
   (slug_spec U s = [] \<longleftrightarrow> (\<forall>c\<in>set (strip s). \<not> kept U c)) \<and>
   safe_slug U s \<noteq> [] \<and>
   (\<forall>c\<in>set (safe_slug U s). is_word U c \<or> c = 45 \<or> is_cjk c) \<and>
   (\<forall>i. Suc i < length (safe_slug U s) \<longrightarrow>
        \<not> (safe_slug U s ! i = 95 \<and> safe_slug U s ! Suc i = 95)) \<and>
   hd (safe_slug U s) \<noteq> 95 \<and> last (safe_slug U s) \<noteq> 95 \<and>
   47 \<notin> set (safe_slug U s) \<and> 0 \<notin> set (safe_slug U s) \<and>
   length (safe_slug U s) \<le> max 2 (length s) \<and>
   name_bytes (safe_slug U s) \<le> max 2 (name_bytes s)"
proof -
  note eq = safe_slug_eq_spec[of U s]
  have nil: "slug_spec U s = [] \<longleftrightarrow> (\<forall>c\<in>set (strip s). \<not> kept U c)"
    by (simp only: slug_spec_rec slug_rec_Nil_iff)
  note shape = safe_slug_shape_aux[of U s]
  from shape have chars: "\<forall>c\<in>set (safe_slug U s). is_word U c \<or> c = 45 \<or> is_cjk c"
    unfolding slug_char_def by blast
  have "\<not> slug_char U 47" "\<not> slug_char U 0"
    by (simp_all add: slug_char_def is_word_def ascii_alnum_def is_cjk_def)
  with shape have no47: "47 \<notin> set (safe_slug U s) \<and> 0 \<notin> set (safe_slug U s)" by blast
  note len = length_safe_slug[of U s]
  note bytes = name_bytes_safe_slug[of U s]
  from eq nil shape chars no47 len bytes show ?thesis by blast
qed

theorem safe_slug_spec_witness:
  "safe_slug (\<lambda>c. False) [32, 97, 95, 95, 47, 47, 98, 33, 32] = [97, 95, 98] \<and>
   safe_slug (\<lambda>c. False) [97, 47, 98] = [97, 95, 98] \<and>
   safe_slug (\<lambda>c. False) [32, 33, 95, 32] = [78, 65]"
proof -
  have a: "slug_spec (\<lambda>c. False) [32, 97, 95, 95, 47, 47, 98, 33, 32] = [97, 95, 98]"
    by (simp add: slug_spec_rec strip_def is_space_def kept_def is_word_def ascii_alnum_def
        is_cjk_def)
  have b: "slug_spec (\<lambda>c. False) [97, 47, 98] = [97, 95, 98]"
    by (simp add: slug_spec_rec strip_def is_space_def kept_def is_word_def ascii_alnum_def
        is_cjk_def)
  have c: "slug_spec (\<lambda>c. False) [32, 33, 95, 32] = []"
    by (simp add: slug_spec_rec strip_def is_space_def kept_def is_word_def ascii_alnum_def
        is_cjk_def)
  from safe_slug_spec[of "\<lambda>c. False" "[32, 97, 95, 95, 47, 47, 98, 33, 32]"]
  have 1: "safe_slug (\<lambda>c. False) [32, 97, 95, 95, 47, 47, 98, 33, 32] = [97, 95, 98]"
    unfolding a by simp
  from safe_slug_spec[of "\<lambda>c. False" "[97, 47, 98]"]
  have 2: "safe_slug (\<lambda>c. False) [97, 47, 98] = [97, 95, 98]"
    unfolding b by simp
  from safe_slug_spec[of "\<lambda>c. False" "[32, 33, 95, 32]"]
  have 3: "safe_slug (\<lambda>c. False) [32, 33, 95, 32] = [78, 65]"
    unfolding c by simp
  from 1 2 3 show ?thesis by blast
qed

text \<open>
  A title of 86 times U+4E2D is returned as it is: 258 bytes, more than a file name
  holds, before the identifier and the extension are added.
\<close>

theorem safe_slug_name_too_long:
  "\<forall>U. safe_slug U (replicate 86 20013) = replicate 86 20013 \<and>
       name_bytes (safe_slug U (replicate 86 20013)) = 258 \<and>
       name_max < name_bytes (safe_slug U (replicate 86 20013))"
proof
  fix U
  have k: "kept U 20013 \<and> \<not> is_space 20013"
    by (simp add: kept_def is_cjk_def is_space_def)
  have ne: "replicate 86 (20013::nat) \<noteq> []" by simp
  have e: "safe_slug U (replicate 86 20013) = replicate 86 20013"
    using ne by (rule safe_slug_all_kept) (simp add: k)
  have b: "name_bytes (replicate 86 20013) = 258"
    by (simp add: name_bytes_def utf8_len_def sum_list_replicate)
  show "safe_slug U (replicate 86 20013) = replicate 86 20013 \<and>
       name_bytes (safe_slug U (replicate 86 20013)) = 258 \<and>
       name_max < name_bytes (safe_slug U (replicate 86 20013))"
    unfolding e b by (simp add: name_max_def)
qed

end
